theory Spec2Isabelle
  imports Main "HOL-Library.Word"
begin

unbundle bit_operations_syntax

section \<open>Outcomes of the C++ code\<close>

text \<open>
  The C++ sources have no exceptions on the paths modelled here, but they have undefined
  behaviour: a store or a load beyond the fixed payload array of a message, a call through
  a null formatter pointer, a dangling queue pointer. The model makes each of them an
  explicit outcome, so that the payload is never asked for an index it does not have. The
  indices of a queue address its slot array by the invariant of the class
  (\<open>wf_queue\<close> below). A loop that may spin forever returns \<open>None\<close>.
\<close>

datatype ub = OutOfBoundsWrite | OutOfBoundsRead | NullFormatter | DanglingQueue

datatype 'a result = Ok 'a | Undefined ub

definition bind_result :: "'a result \<Rightarrow> ('a \<Rightarrow> 'b result) \<Rightarrow> 'b result" where
  "bind_result r f = (case r of Ok x \<Rightarrow> f x | Undefined e \<Rightarrow> Undefined e)"

section \<open>SPSCQueue.hpp\<close>

text \<open>
  \<open>std::size_t\<close> is a 64-bit word. \<open>QueueSize\<close> is the template parameter of
  \<open>SPSCQueue\<close> at its default, the only instance the repository uses
  (\<open>using MessageQueue = SPSCQueue<LogMessage>\<close>).
\<close>

type_synonym size_t = "64 word"

definition QueueSize :: nat where
  "QueueSize = 1024"

definition kIndexMask :: size_t where
  "kIndexMask = of_nat QueueSize - 1"

record 'a SPSCQueue =
  mDataBuffer :: "'a list"
  mHead :: size_t
  mTail :: size_t

text \<open>
  A freshly constructed queue: both indices are 0 (\<open>_mHead{0}\<close>, \<open>_mTail{0}\<close>) and the
  slot array holds whatever its storage held, the parameter \<open>raw\<close>.
\<close>

definition SPSCQueue_new :: "'a list \<Rightarrow> 'a SPSCQueue" where
  "SPSCQueue_new raw = \<lparr>mDataBuffer = raw, mHead = 0, mTail = 0\<rparr>"

definition getNextIndex :: "size_t \<Rightarrow> size_t" where
  "getNextIndex index = (index + 1) AND kIndexMask"

definition IsEmpty :: "'a SPSCQueue \<Rightarrow> bool" where
  "IsEmpty q = (if mHead q = mTail q then True else False)"

text \<open>
  \<open>Dequeue(T& data)\<close>: the result is the returned flag, the caller's \<open>data\<close> after the
  call and the queue after the call.
\<close>

definition Dequeue :: "'a SPSCQueue \<Rightarrow> 'a \<Rightarrow> bool \<times> 'a \<times> 'a SPSCQueue" where
  "Dequeue q data =
     (if IsEmpty q then (False, data, q)
      else let readIndex = mHead q;
               data' = mDataBuffer q ! unat readIndex
           in (True, data', q\<lparr>mHead := getNextIndex readIndex\<rparr>))"

text \<open>
  The producer's wait \<open>while (nextWriteIndex == _mHead.load());\<close> run with no consumer
  beside it: the head it reads never changes, so on a full queue the loop does not end.
\<close>

partial_function (option) spin_while_full :: "'a SPSCQueue \<Rightarrow> size_t \<Rightarrow> unit option" where
  "spin_while_full q nextWriteIndex =
     (if nextWriteIndex = mHead q then spin_while_full q nextWriteIndex else Some ())"

text \<open>\<open>Enqueue(T& data)\<close>, the copying overload.\<close>

definition Enqueue :: "'a SPSCQueue \<Rightarrow> 'a \<Rightarrow> 'a SPSCQueue option" where
  "Enqueue q data =
     (let writeIndex = mTail q;
          nextWriteIndex = getNextIndex writeIndex
      in case spin_while_full q nextWriteIndex of
           None \<Rightarrow> None
         | Some _ \<Rightarrow>
             Some (q\<lparr>mDataBuffer := (mDataBuffer q)[unat writeIndex := data],
                     mTail := nextWriteIndex\<rparr>))"

text \<open>
  \<open>Enqueue(Args&&... args)\<close>, the emplacing overload: after the wait, placement-new
  runs the constructor of \<open>T\<close> on the storage of the slot. \<open>construct\<close> is that
  constructor with its arguments applied; it receives the bytes the slot held, since a
  constructor that initialises only part of the object leaves the rest as it was.
\<close>

definition Enqueue_emplace ::
  "'a SPSCQueue \<Rightarrow> ('a \<Rightarrow> 'a result) \<Rightarrow> 'a SPSCQueue result option" where
  "Enqueue_emplace q construct =
     (let writeIndex = mTail q;
          nextWriteIndex = getNextIndex writeIndex
      in case spin_while_full q nextWriteIndex of
           None \<Rightarrow> None
         | Some _ \<Rightarrow>
             Some (bind_result (construct (mDataBuffer q ! unat writeIndex))
                     (\<lambda>obj. Ok (q\<lparr>mDataBuffer := (mDataBuffer q)[unat writeIndex := obj],
                                   mTail := nextWriteIndex\<rparr>))))"

text \<open>
  The class invariant: the array has \<open>QueueSize\<close> slots and both indices address it.
  It holds for a new queue and every operation keeps it.
\<close>

definition wf_queue :: "'a SPSCQueue \<Rightarrow> bool" where
  "wf_queue q \<longleftrightarrow>
     length (mDataBuffer q) = QueueSize \<and> unat (mHead q) < QueueSize \<and> unat (mTail q) < QueueSize"

text \<open>
  The messages outstanding in a queue, oldest first: the slots from \<open>head\<close> up to, not
  including, \<open>tail\<close>, going round the array.
\<close>

definition count :: "'a SPSCQueue \<Rightarrow> nat" where
  "count q = (unat (mTail q) + QueueSize - unat (mHead q)) mod QueueSize"

definition ring :: "'a SPSCQueue \<Rightarrow> 'a list" where
  "ring q = map (\<lambda>k. mDataBuffer q ! ((unat (mHead q) + k) mod QueueSize)) [0..<count q]"

text \<open>
  A sequential history of calls on one queue by a caller that keeps one variable \<open>data\<close>
  for the results of \<open>Dequeue\<close>; \<open>None\<close> when a call never returns.
\<close>

datatype 'a queue_op = Enq 'a | Deq

fun exec :: "'a queue_op list \<Rightarrow> 'a SPSCQueue \<times> 'a \<Rightarrow> ('a SPSCQueue \<times> 'a) option" where
  "exec [] (q, data) = Some (q, data)"
| "exec (Enq x # ops) (q, data) =
     (case Enqueue q x of None \<Rightarrow> None | Some q' \<Rightarrow> exec ops (q', data))"
| "exec (Deq # ops) (q, data) =
     (case Dequeue q data of (_, data', q') \<Rightarrow> exec ops (q', data'))"

text \<open>
  The condition the producer waits on, \<open>nextWriteIndex == _mHead\<close>: the queue is full.
\<close>

definition IsFull :: "'a SPSCQueue \<Rightarrow> bool" where
  "IsFull q \<longleftrightarrow> getNextIndex (mTail q) = mHead q"

section \<open>One producer and one consumer, interleaved\<close>

text \<open>
  \<open>Enqueue\<close> and \<open>Dequeue\<close> cut at their accesses to the shared queue, so that the two
  threads can be interleaved between any two of them. Each thread is a program counter
  with the locals of the call in progress.

  Producer, \<open>Enqueue(T& data)\<close>:
  \<^item> \<open>P_idle\<close> to \<open>P_spin\<close>: the call loads \<open>_mTail\<close> into \<open>writeIndex\<close> and computes
    \<open>nextWriteIndex\<close>;
  \<^item> \<open>P_spin\<close>: one round of \<open>while (nextWriteIndex == _mHead.load())\<close>, which loads
    \<open>_mHead\<close> and stays or goes on to \<open>P_write\<close>;
  \<^item> \<open>P_write\<close> to \<open>P_publish\<close>: \<open>_mDataBuffer[writeIndex] = data\<close>;
  \<^item> \<open>P_publish\<close> to \<open>P_idle\<close>: \<open>_mTail.store(nextWriteIndex)\<close> and return.

  Consumer, \<open>Dequeue(T& data)\<close>:
  \<^item> \<open>C_idle\<close>: the call runs \<open>IsEmpty()\<close>, which compares \<open>_mHead\<close> with the loaded
    \<open>_mTail\<close>, and returns false at once or goes on to \<open>C_load\<close>;
  \<^item> \<open>C_load\<close> to \<open>C_copy\<close>: \<open>readIndex = _mHead.load()\<close>;
  \<^item> \<open>C_copy\<close> to \<open>C_store\<close>: \<open>memcpy(&data, &_mDataBuffer[readIndex], sizeof(T))\<close>;
  \<^item> \<open>C_store\<close> to \<open>C_idle\<close>: \<open>_mHead.store(getNextIndex(readIndex))\<close> and return true.

  The steps are atomic and take effect in the order of the schedule (sequential
  consistency). \<open>enqueued\<close> and \<open>dequeued\<close> are the history: the values passed to
  \<open>Enqueue\<close>, in the order of the calls, and the values \<open>Dequeue\<close> returned with true.
\<close>

datatype 'a producer =
    P_idle
  | P_spin size_t size_t 'a
  | P_write size_t size_t 'a
  | P_publish size_t

datatype 'a consumer =
    C_idle
  | C_load
  | C_copy size_t
  | C_store size_t 'a

record 'a system =
  queue :: "'a SPSCQueue"
  producer :: "'a producer"
  consumer :: "'a consumer"
  enqueued :: "'a list"
  dequeued :: "'a list"

definition system_new :: "'a list \<Rightarrow> 'a system" where
  "system_new raw =
     \<lparr>queue = SPSCQueue_new raw, producer = P_idle, consumer = C_idle,
      enqueued = [], dequeued = []\<rparr>"

definition call_Enqueue :: "'a \<Rightarrow> 'a system \<Rightarrow> 'a system" where
  "call_Enqueue data s =
     (case producer s of
        P_idle \<Rightarrow>
          (let writeIndex = mTail (queue s);
               nextWriteIndex = getNextIndex writeIndex
           in s\<lparr>producer := P_spin writeIndex nextWriteIndex data,
                 enqueued := enqueued s @ [data]\<rparr>)
      | _ \<Rightarrow> s)"

definition step_producer :: "'a system \<Rightarrow> 'a system" where
  "step_producer s =
     (case producer s of
        P_idle \<Rightarrow> s
      | P_spin writeIndex nextWriteIndex data \<Rightarrow>
          if nextWriteIndex = mHead (queue s) then s
          else s\<lparr>producer := P_write writeIndex nextWriteIndex data\<rparr>
      | P_write writeIndex nextWriteIndex data \<Rightarrow>
          s\<lparr>queue := (queue s)\<lparr>mDataBuffer := (mDataBuffer (queue s))[unat writeIndex := data]\<rparr>,
            producer := P_publish nextWriteIndex\<rparr>
      | P_publish nextWriteIndex \<Rightarrow>
          s\<lparr>queue := (queue s)\<lparr>mTail := nextWriteIndex\<rparr>, producer := P_idle\<rparr>)"

definition call_Dequeue :: "'a system \<Rightarrow> 'a system" where
  "call_Dequeue s =
     (case consumer s of
        C_idle \<Rightarrow> if IsEmpty (queue s) then s else s\<lparr>consumer := C_load\<rparr>
      | _ \<Rightarrow> s)"

definition step_consumer :: "'a system \<Rightarrow> 'a system" where
  "step_consumer s =
     (case consumer s of
        C_idle \<Rightarrow> s
      | C_load \<Rightarrow> s\<lparr>consumer := C_copy (mHead (queue s))\<rparr>
      | C_copy readIndex \<Rightarrow>
          s\<lparr>consumer := C_store readIndex (mDataBuffer (queue s) ! unat readIndex)\<rparr>
      | C_store readIndex data \<Rightarrow>
          s\<lparr>queue := (queue s)\<lparr>mHead := getNextIndex readIndex\<rparr>,
            consumer := C_idle,
            dequeued := dequeued s @ [data]\<rparr>)"

text \<open>
  A schedule is a list of actions. A call by a thread that is inside a call, and a step of
  a thread that is idle, change nothing.
\<close>

datatype 'a action = CallEnqueue 'a | StepProducer | CallDequeue | StepConsumer

fun step :: "'a action \<Rightarrow> 'a system \<Rightarrow> 'a system" where
  "step (CallEnqueue data) s = call_Enqueue data s"
| "step StepProducer s = step_producer s"
| "step CallDequeue s = call_Dequeue s"
| "step StepConsumer s = step_consumer s"

fun run :: "'a action list \<Rightarrow> 'a system \<Rightarrow> 'a system" where
  "run [] s = s"
| "run (a # as) s = run as (step a s)"

text \<open>The value of the call of \<open>Enqueue\<close> in progress, not yet visible to the consumer.\<close>

fun in_flight :: "'a SPSCQueue \<Rightarrow> 'a producer \<Rightarrow> 'a list" where
  "in_flight q P_idle = []"
| "in_flight q (P_spin w n data) = [data]"
| "in_flight q (P_write w n data) = [data]"
| "in_flight q (P_publish n) = [mDataBuffer q ! unat (mTail q)]"

text \<open>The slot a thread is about to access, if it is about to access one.\<close>

fun producer_slot :: "'a producer \<Rightarrow> size_t option" where
  "producer_slot (P_write writeIndex n data) = Some writeIndex"
| "producer_slot _ = None"

fun consumer_slot :: "'a consumer \<Rightarrow> size_t option" where
  "consumer_slot (C_copy readIndex) = Some readIndex"
| "consumer_slot _ = None"

text \<open>What holds between the steps.\<close>

fun producer_inv :: "'a SPSCQueue \<Rightarrow> 'a producer \<Rightarrow> bool" where
  "producer_inv q P_idle = True"
| "producer_inv q (P_spin w n data) = (w = mTail q \<and> n = getNextIndex (mTail q))"
| "producer_inv q (P_write w n data) =
     (w = mTail q \<and> n = getNextIndex (mTail q) \<and> n \<noteq> mHead q)"
| "producer_inv q (P_publish n) = (n = getNextIndex (mTail q) \<and> n \<noteq> mHead q)"

fun consumer_inv :: "'a SPSCQueue \<Rightarrow> 'a consumer \<Rightarrow> bool" where
  "consumer_inv q C_idle = True"
| "consumer_inv q C_load = (mHead q \<noteq> mTail q)"
| "consumer_inv q (C_copy r) = (mHead q \<noteq> mTail q \<and> r = mHead q)"
| "consumer_inv q (C_store r d) =
     (mHead q \<noteq> mTail q \<and> r = mHead q \<and> d = mDataBuffer q ! unat (mHead q))"

definition system_inv :: "'a system \<Rightarrow> bool" where
  "system_inv s \<longleftrightarrow>
     wf_queue (queue s) \<and> producer_inv (queue s) (producer s) \<and>
     consumer_inv (queue s) (consumer s) \<and>
     enqueued s = dequeued s @ ring (queue s) @ in_flight (queue s) (producer s)"

section \<open>FastLogger.hpp: levels and text\<close>

text \<open>
  \<open>enum class LogLevel : std::uint8_t { DEBUG, INFO, ERROR, FATAL }\<close>. A level is its
  byte: \<open>Log\<close> compares levels as bytes and the drainer reads the level back from the first
  byte of the payload, whatever that byte is.
\<close>

type_synonym LogLevel = "8 word"

definition DEBUG :: LogLevel where "DEBUG = 0"
definition INFO :: LogLevel where "INFO = 1"
definition ERROR :: LogLevel where "ERROR = 2"
definition FATAL :: LogLevel where "FATAL = 3"

definition LogLevelToString :: "LogLevel \<Rightarrow> string" where
  "LogLevelToString logLevel =
     (if logLevel = DEBUG then ''DEBUG''
      else if logLevel = INFO then ''INFO''
      else if logLevel = ERROR then ''ERROR''
      else if logLevel = FATAL then ''FATAL''
      else ''INVALID'')"

text \<open>
  A \<open>char\<close> of the payload is a HOL \<open>char\<close>, one byte. A byte read as a level and a level
  stored as a byte:
\<close>

definition char_of_level :: "LogLevel \<Rightarrow> char" where
  "char_of_level l = char_of (unat l)"

definition level_of_char :: "char \<Rightarrow> LogLevel" where
  "level_of_char c = of_nat (of_char c)"

text \<open>Decimal text, as \<open>operator<<\<close> writes a number into a stream in its default state.\<close>

definition digit :: "nat \<Rightarrow> char" where
  "digit d = char_of (48 + d)"

fun show_nat :: "nat \<Rightarrow> string" where
  "show_nat n = (if n < 10 then [digit n] else show_nat (n div 10) @ [digit (n mod 10)])"

declare show_nat.simps [simp del]

definition show_int :: "int \<Rightarrow> string" where
  "show_int i = (if i < 0 then CHR ''-'' # show_nat (nat (- i)) else show_nat (nat i))"

section \<open>FastLogger.hpp: arguments and their bytes\<close>

text \<open>
  The argument types of the producer API: the fixed-width integers, \<open>bool\<close>, \<open>float\<close>,
  \<open>double\<close>, \<open>std::string\<close> and \<open>const char*\<close> (to which a string literal decays).
  A \<open>ctype\<close> is a decayed type, an element of the pack \<open>CArgs\<close> of a formatter; an \<open>arg\<close>
  is a value of such a type. A \<open>float\<close> and a \<open>double\<close> are their 32 and 64 bits.
  \<open>A_string s\<close> is a \<open>std::string\<close> of \<open>size()\<close> \<open>length s\<close>, which may hold null
  characters. \<open>A_cstr s\<close> is a pointer to the characters \<open>s\<close> followed by a null character.
\<close>

datatype ctype =
    T_int8 | T_uint8 | T_int16 | T_uint16 | T_int32 | T_uint32 | T_int64 | T_uint64
  | T_bool | T_float | T_double | T_string | T_cstr

datatype arg =
    A_int8 "8 word" | A_uint8 "8 word"
  | A_int16 "16 word" | A_uint16 "16 word"
  | A_int32 "32 word" | A_uint32 "32 word"
  | A_int64 "64 word" | A_uint64 "64 word"
  | A_bool bool
  | A_float "32 word" | A_double "64 word"
  | A_string string | A_cstr string

fun ctype_of :: "arg \<Rightarrow> ctype" where
  "ctype_of (A_int8 _) = T_int8"
| "ctype_of (A_uint8 _) = T_uint8"
| "ctype_of (A_int16 _) = T_int16"
| "ctype_of (A_uint16 _) = T_uint16"
| "ctype_of (A_int32 _) = T_int32"
| "ctype_of (A_uint32 _) = T_uint32"
| "ctype_of (A_int64 _) = T_int64"
| "ctype_of (A_uint64 _) = T_uint64"
| "ctype_of (A_bool _) = T_bool"
| "ctype_of (A_float _) = T_float"
| "ctype_of (A_double _) = T_double"
| "ctype_of (A_string _) = T_string"
| "ctype_of (A_cstr _) = T_cstr"

text \<open>\<open>sizeof(T)\<close> for the scalar types; the two string types are never asked.\<close>

fun sizeof :: "ctype \<Rightarrow> nat" where
  "sizeof T_int8 = 1"
| "sizeof T_uint8 = 1"
| "sizeof T_int16 = 2"
| "sizeof T_uint16 = 2"
| "sizeof T_int32 = 4"
| "sizeof T_uint32 = 4"
| "sizeof T_int64 = 8"
| "sizeof T_uint64 = 8"
| "sizeof T_bool = 1"
| "sizeof T_float = 4"
| "sizeof T_double = 8"
| "sizeof T_string = 0"
| "sizeof T_cstr = 0"

text \<open>
  The object representation of a scalar, in the native byte order of the target, least
  significant byte first: \<open>le_bytes n x\<close> is the number \<open>x\<close> in \<open>n\<close> bytes and \<open>le_nat\<close>
  reads it back.
\<close>

fun le_bytes :: "nat \<Rightarrow> nat \<Rightarrow> string" where
  "le_bytes 0 x = []"
| "le_bytes (Suc n) x = char_of (x mod 256) # le_bytes n (x div 256)"

fun le_nat :: "string \<Rightarrow> nat" where
  "le_nat [] = 0"
| "le_nat (c # cs) = of_char c + 256 * le_nat cs"

fun object_bytes :: "arg \<Rightarrow> string" where
  "object_bytes (A_int8 w) = le_bytes 1 (unat w)"
| "object_bytes (A_uint8 w) = le_bytes 1 (unat w)"
| "object_bytes (A_int16 w) = le_bytes 2 (unat w)"
| "object_bytes (A_uint16 w) = le_bytes 2 (unat w)"
| "object_bytes (A_int32 w) = le_bytes 4 (unat w)"
| "object_bytes (A_uint32 w) = le_bytes 4 (unat w)"
| "object_bytes (A_int64 w) = le_bytes 8 (unat w)"
| "object_bytes (A_uint64 w) = le_bytes 8 (unat w)"
| "object_bytes (A_bool b) = le_bytes 1 (if b then 1 else 0)"
| "object_bytes (A_float w) = le_bytes 4 (unat w)"
| "object_bytes (A_double w) = le_bytes 8 (unat w)"
| "object_bytes (A_string s) = []"
| "object_bytes (A_cstr s) = []"

text \<open>\<open>*reinterpret_cast<const T*>(data)\<close>: the scalar of type \<open>T\<close> that the bytes are.\<close>

fun object_of_bytes :: "ctype \<Rightarrow> string \<Rightarrow> arg" where
  "object_of_bytes T_int8 bs = A_int8 (of_nat (le_nat bs))"
| "object_of_bytes T_uint8 bs = A_uint8 (of_nat (le_nat bs))"
| "object_of_bytes T_int16 bs = A_int16 (of_nat (le_nat bs))"
| "object_of_bytes T_uint16 bs = A_uint16 (of_nat (le_nat bs))"
| "object_of_bytes T_int32 bs = A_int32 (of_nat (le_nat bs))"
| "object_of_bytes T_uint32 bs = A_uint32 (of_nat (le_nat bs))"
| "object_of_bytes T_int64 bs = A_int64 (of_nat (le_nat bs))"
| "object_of_bytes T_uint64 bs = A_uint64 (of_nat (le_nat bs))"
| "object_of_bytes T_bool bs = A_bool (le_nat bs \<noteq> 0)"
| "object_of_bytes T_float bs = A_float (of_nat (le_nat bs))"
| "object_of_bytes T_double bs = A_double (of_nat (le_nat bs))"
| "object_of_bytes T_string bs = A_string bs"
| "object_of_bytes T_cstr bs = A_cstr bs"

text \<open>
  \<open>strlen\<close>, and the characters of a C string: those before the first null character.
\<close>

definition c_str :: "string \<Rightarrow> string" where
  "c_str s = takeWhile (\<lambda>c. c \<noteq> CHR 0x00) s"

definition strlen :: "string \<Rightarrow> nat" where
  "strlen s = length (c_str s)"

text \<open>
  The text \<open>stream << value\<close> appends for a value of each type, the stream being a new
  \<open>std::ostringstream\<close>: an 8-bit integer is a character type and is written as that
  character, the wider integers in decimal, a \<open>bool\<close> as 1 or 0, a \<open>std::string\<close> whole and
  a \<open>const char*\<close> up to its null character. How the library writes a \<open>float\<close> and a
  \<open>double\<close> is a parameter.
\<close>

record ostream_fmt =
  show_float :: "32 word \<Rightarrow> string"
  show_double :: "64 word \<Rightarrow> string"

fun render :: "ostream_fmt \<Rightarrow> arg \<Rightarrow> string" where
  "render os (A_int8 w) = [char_of (unat w)]"
| "render os (A_uint8 w) = [char_of (unat w)]"
| "render os (A_int16 w) = show_int (sint w)"
| "render os (A_uint16 w) = show_nat (unat w)"
| "render os (A_int32 w) = show_int (sint w)"
| "render os (A_uint32 w) = show_nat (unat w)"
| "render os (A_int64 w) = show_int (sint w)"
| "render os (A_uint64 w) = show_nat (unat w)"
| "render os (A_bool b) = (if b then ''1'' else ''0'')"
| "render os (A_float w) = show_float os w"
| "render os (A_double w) = show_double os w"
| "render os (A_string s) = s"
| "render os (A_cstr s) = c_str s"

section \<open>FastLogger.hpp: LogFormatter\<close>

text \<open>
  An instance \<open>LogFormatter<FormatString, CArgs...>::instance\<close>: its template string and
  its argument types. A pointer to a formatter is modelled by the pair, which is all that
  \<open>Evaluate\<close> uses of the instance; the null pointer is \<open>None\<close>.
\<close>

record LogFormatter =
  mFormatString :: string
  CArgs :: "ctype list"

text \<open>
  The constructor \<open>LogFormatter() : BaseLogFormatter(FormatString.Value)\<close> makes the
  \<open>std::string_view\<close> from a \<open>const char*\<close>: the template of the instance is the literal
  up to its first null character, which is also all that \<open>strstr\<close> and \<open>operator<<\<close>
  read of it in \<open>Format\<close>.
\<close>

definition LogFormatter_instance :: "string \<Rightarrow> ctype list \<Rightarrow> LogFormatter" where
  "LogFormatter_instance FormatString Args =
     \<lparr>mFormatString = c_str FormatString, CArgs = Args\<rparr>"

text \<open>\<open>makeStringLiteral(str...)\<close> concatenates its string literals.\<close>

definition makeStringLiteral :: "string list \<Rightarrow> string" where
  "makeStringLiteral strs = concat strs"

text \<open>\<open>strstr(haystack, needle)\<close>: the offset of the first occurrence, if there is one.\<close>

fun strstr :: "string \<Rightarrow> string \<Rightarrow> nat option" where
  "strstr [] needle = (if needle = [] then Some 0 else None)"
| "strstr (c # cs) needle =
     (if take (length needle) (c # cs) = needle then Some 0
      else map_option Suc (strstr cs needle))"

text \<open>
  \<open>PrintData<T>(data, stream)\<close>. \<open>data\<close> is the payload and the offset of the pointer in
  it. The string branch builds \<open>std::string str(data)\<close>, which reads up to the next null
  character; the scalar branch reads \<open>sizeof(T)\<close> bytes. Reading past the end of the
  payload is undefined.
\<close>

definition PrintData ::
  "ostream_fmt \<Rightarrow> ctype \<Rightarrow> string \<Rightarrow> nat \<Rightarrow> string \<Rightarrow> (string \<times> nat) result" where
  "PrintData os T data off stream =
     (if T = T_string \<or> T = T_cstr then
        (if CHR 0x00 \<in> set (drop off data) then
           (let str = c_str (drop off data)
            in Ok (stream @ str, off + length str + 1))
         else Undefined OutOfBoundsRead)
      else
        (if off + sizeof T \<le> length data then
           Ok (stream @ render os (object_of_bytes T (take (sizeof T) (drop off data))),
               off + sizeof T)
         else Undefined OutOfBoundsRead))"

text \<open>
  \<open>Format<Args...>(data, formatStr, stream)\<close>, by recursion on the pack of types; the
  result is the stream after the call.
\<close>

fun Format ::
  "ostream_fmt \<Rightarrow> ctype list \<Rightarrow> string \<Rightarrow> nat \<Rightarrow> string \<Rightarrow> string \<Rightarrow> string result" where
  "Format os [] data off formatStr stream = Ok (stream @ formatStr)"
| "Format os (Arg # Args) data off formatStr stream =
     (case strstr formatStr ''{}'' of
        None \<Rightarrow> Ok (stream @ formatStr)
      | Some placeholder \<Rightarrow>
          bind_result (PrintData os Arg data off (stream @ take placeholder formatStr))
            (\<lambda>(stream', off'). Format os Args data off' (drop (placeholder + 2) formatStr) stream'))"

definition Evaluate ::
  "ostream_fmt \<Rightarrow> LogFormatter \<Rightarrow> string \<Rightarrow> nat \<Rightarrow> string \<Rightarrow> string result" where
  "Evaluate os formatter data off stream =
     Format os (CArgs formatter) data off (mFormatString formatter) stream"

text \<open>
  What the claims call the rendered template: the template with its placeholders replaced,
  from the left, by the given texts, as long as there are texts.
\<close>

fun render_template :: "string \<Rightarrow> string list \<Rightarrow> string" where
  "render_template template [] = template"
| "render_template template (r # rs) =
     (case strstr template ''{}'' of
        None \<Rightarrow> template
      | Some placeholder \<Rightarrow>
          take placeholder template @ r @ render_template (drop (placeholder + 2) template) rs)"

section \<open>FastLogger.hpp: LogMessage\<close>

text \<open>
  \<open>struct LogMessage { BaseLogFormatter* _mFormatter; char _mDataBuffer[1024]; }\<close>.
  The field \<open>_mDataBuffer\<close> is \<open>mPayload\<close> here, the name \<open>mDataBuffer\<close> being the
  queue's.
\<close>

record LogMessage =
  mFormatter :: "LogFormatter option"
  mPayload :: string

definition PayloadSize :: nat where
  "PayloadSize = 1024"

text \<open>
  \<open>memcpy(buffer, src, n)\<close> into the payload at an offset. The source checks nothing: a
  copy that does not fit writes beyond the array, which is undefined.
\<close>

definition memcpy :: "string \<Rightarrow> nat \<Rightarrow> string \<Rightarrow> string result" where
  "memcpy buffer off src =
     (if off + length src \<le> length buffer
      then Ok (take off buffer @ src @ drop (off + length src) buffer)
      else Undefined OutOfBoundsWrite)"

text \<open>
  \<open>CopyData(buffer, data)\<close>; the result is the payload after the call and the offset of
  the returned pointer.
\<close>

fun CopyData :: "string \<Rightarrow> nat \<Rightarrow> arg \<Rightarrow> (string \<times> nat) result" where
  "CopyData buffer off (A_string s) =
     bind_result (memcpy buffer off s) (\<lambda>buffer.
     bind_result (memcpy buffer (off + length s) [CHR 0x00]) (\<lambda>buffer.
     Ok (buffer, off + length s + 1)))"
| "CopyData buffer off (A_cstr s) =
     (let len = strlen s in
      bind_result (memcpy buffer off (take len s)) (\<lambda>buffer.
      bind_result (memcpy buffer (off + len) [CHR 0x00]) (\<lambda>buffer.
      Ok (buffer, off + len + 1))))"
| "CopyData buffer off data =
     bind_result (memcpy buffer off (object_bytes data)) (\<lambda>buffer.
     Ok (buffer, off + sizeof (ctype_of data)))"

text \<open>
  \<open>CopyArgs(buffer, arg, args...)\<close>. The source ends the recursion at the pack of one
  argument and is never called with none.
\<close>

fun CopyArgs :: "string \<Rightarrow> nat \<Rightarrow> arg list \<Rightarrow> (string \<times> nat) result" where
  "CopyArgs buffer off [] = Ok (buffer, off)"
| "CopyArgs buffer off [arg] = CopyData buffer off arg"
| "CopyArgs buffer off (arg # args) =
     bind_result (CopyData buffer off arg) (\<lambda>(buffer, off). CopyArgs buffer off args)"

text \<open>
  The constructors, run by placement-new on the storage \<open>raw\<close> of a slot. They set the
  formatter and the bytes they copy; the other bytes of the payload stay as they were.
  \<open>sizeof(LogLevel)\<close> is 1.
\<close>

definition LogMessage_level :: "LogFormatter \<Rightarrow> LogLevel \<Rightarrow> LogMessage \<Rightarrow> LogMessage result" where
  "LogMessage_level formatter logLevel raw =
     bind_result (memcpy (mPayload raw) 0 [char_of_level logLevel]) (\<lambda>buffer.
     Ok \<lparr>mFormatter = Some formatter, mPayload = buffer\<rparr>)"

definition LogMessage_args ::
  "LogFormatter \<Rightarrow> LogLevel \<Rightarrow> arg list \<Rightarrow> LogMessage \<Rightarrow> LogMessage result" where
  "LogMessage_args formatter logLevel args raw =
     bind_result (LogMessage_level formatter logLevel raw) (\<lambda>msg.
     bind_result (CopyArgs (mPayload msg) 1 args) (\<lambda>(buffer, _).
     Ok (msg\<lparr>mPayload := buffer\<rparr>)))"

text \<open>
  Overload resolution: a call with no arguments takes the two-parameter constructor,
  a call with arguments the variadic one.
\<close>

definition LogMessage_new ::
  "LogFormatter \<Rightarrow> LogLevel \<Rightarrow> arg list \<Rightarrow> LogMessage \<Rightarrow> LogMessage result" where
  "LogMessage_new formatter logLevel args raw =
     (if args = [] then LogMessage_level formatter logLevel raw
      else LogMessage_args formatter logLevel args raw)"

text \<open>The bytes \<open>CopyData\<close> writes for an argument, and for a pack of arguments.\<close>

fun arg_bytes :: "arg \<Rightarrow> string" where
  "arg_bytes (A_string s) = s @ [CHR 0x00]"
| "arg_bytes (A_cstr s) = c_str s @ [CHR 0x00]"
| "arg_bytes data = object_bytes data"

definition encode :: "arg list \<Rightarrow> string" where
  "encode args = concat (map arg_bytes args)"

text \<open>
  A null-terminated string holds no null character before its terminator. A
  \<open>const char*\<close> argument is one by what \<open>strlen\<close> reads; a \<open>std::string\<close> is one when no
  character of it is null.
\<close>

fun null_terminated :: "arg \<Rightarrow> bool" where
  "null_terminated (A_string s) = (CHR 0x00 \<notin> set s)"
| "null_terminated _ = True"

section \<open>FastLogger.hpp: the queues of the threads\<close>

text \<open>
  \<open>GetThreadScopedMessageQueue\<close> holds one \<open>thread_local ThreadScopedQueue\<close>: each thread
  has at most one such object, made at the thread's first call. A pointer to the object is
  modelled by the identifier of its thread, and the objects by a store from thread
  identifiers to queues. The manager's \<open>std::unordered_set\<close> of pointers is a list without
  repetition; its order stands for the unspecified order of iteration.
\<close>

type_synonym thread_id = nat

type_synonym MessageQueue = "LogMessage SPSCQueue"

record ThreadScopedQueueManager =
  mThreadScopedQueues :: "thread_id list"

text \<open>What is done to a \<open>std::ofstream\<close>, in order.\<close>

datatype io = Write string | Flush

record FastLogger =
  mLogLevel :: LogLevel
  mFileStream :: "io list"
  mThreadScopedQueueManager :: ThreadScopedQueueManager

text \<open>
  A process with one logger: the logger and the thread-local queue objects that exist.
  The thread-local object is one per thread, whatever the logger, and registers with the
  manager of the first call; with one logger that manager is always the logger's own.
\<close>

record process =
  logger :: FastLogger
  sThreadScopedQueue :: "thread_id \<rightharpoonup> MessageQueue"

text \<open>
  The constructor of \<open>FastLogger\<close>: the threshold is \<open>LogLevel::INFO\<close>, the file is
  open and nothing is written, the manager is new.
\<close>

definition FastLogger_new :: FastLogger where
  "FastLogger_new =
     \<lparr>mLogLevel = INFO, mFileStream = [],
      mThreadScopedQueueManager = \<lparr>mThreadScopedQueues = []\<rparr>\<rparr>"

definition SetLogLevel :: "FastLogger \<Rightarrow> LogLevel \<Rightarrow> FastLogger" where
  "SetLogLevel lg logLevel = lg\<lparr>mLogLevel := logLevel\<rparr>"

definition RegisterScopedQueue ::
  "ThreadScopedQueueManager \<Rightarrow> thread_id \<Rightarrow> ThreadScopedQueueManager" where
  "RegisterScopedQueue mgr threadScopedQueue =
     mgr\<lparr>mThreadScopedQueues := List.insert threadScopedQueue (mThreadScopedQueues mgr)\<rparr>"

text \<open>
  The storage of a thread-local object is zero-initialized before its constructor runs, and
  the constructor of the queue initialises the two indices only: every slot of a new
  thread's queue is a message of a null formatter and null bytes.
\<close>

definition zero_LogMessage :: LogMessage where
  "zero_LogMessage = \<lparr>mFormatter = None, mPayload = replicate PayloadSize (CHR 0x00)\<rparr>"

definition ThreadScopedQueue_new :: MessageQueue where
  "ThreadScopedQueue_new = SPSCQueue_new (replicate QueueSize zero_LogMessage)"

text \<open>
  \<open>GetThreadScopedMessageQueue(manager)\<close> called by the thread \<open>self\<close>: at the first call
  the object is constructed, which registers it; the result is the process and the queue.
\<close>

definition GetThreadScopedMessageQueue :: "process \<Rightarrow> thread_id \<Rightarrow> process \<times> MessageQueue" where
  "GetThreadScopedMessageQueue p self =
     (case sThreadScopedQueue p self of
        Some q \<Rightarrow> (p, q)
      | None \<Rightarrow>
          (p\<lparr>sThreadScopedQueue := (sThreadScopedQueue p)(self \<mapsto> ThreadScopedQueue_new),
             logger := (logger p)\<lparr>mThreadScopedQueueManager :=
               RegisterScopedQueue (mThreadScopedQueueManager (logger p)) self\<rparr>\<rparr>,
           ThreadScopedQueue_new))"

text \<open>
  \<open>UnRegisterThreadScopedQueue(queue)\<close>. While the caller sleeps the other threads run;
  \<open>during_sleep\<close> is what they do to the process in those five seconds.
\<close>

definition UnRegisterThreadScopedQueue ::
  "(process \<Rightarrow> process) \<Rightarrow> process \<Rightarrow> thread_id \<Rightarrow> process result" where
  "UnRegisterThreadScopedQueue during_sleep p threadScopedQueue =
     (case sThreadScopedQueue p threadScopedQueue of
        None \<Rightarrow> Undefined DanglingQueue
      | Some q \<Rightarrow>
          (let p = (if \<not> IsEmpty q then during_sleep p else p);
               mgr = mThreadScopedQueueManager (logger p)
           in Ok (p\<lparr>logger := (logger p)\<lparr>mThreadScopedQueueManager :=
                    mgr\<lparr>mThreadScopedQueues :=
                      removeAll threadScopedQueue (mThreadScopedQueues mgr)\<rparr>\<rparr>\<rparr>)))"

text \<open>
  \<open>ForEachQueue(callback)\<close>, the callback working on a queue and on a state \<open>'s\<close> of its
  own. A pointer of the set whose object is gone is dangling.
\<close>

fun ForEachQueue ::
  "(MessageQueue \<Rightarrow> 's \<Rightarrow> (MessageQueue \<times> 's) result option) \<Rightarrow> thread_id list \<Rightarrow>
   (thread_id \<rightharpoonup> MessageQueue) \<Rightarrow> 's \<Rightarrow> ((thread_id \<rightharpoonup> MessageQueue) \<times> 's) result option" where
  "ForEachQueue callback [] queues s = Some (Ok (queues, s))"
| "ForEachQueue callback (threadScopedQueue # rest) queues s =
     (case queues threadScopedQueue of
        None \<Rightarrow> Some (Undefined DanglingQueue)
      | Some q \<Rightarrow>
          (case callback q s of
             None \<Rightarrow> None
           | Some (Undefined e) \<Rightarrow> Some (Undefined e)
           | Some (Ok (q', s')) \<Rightarrow>
               ForEachQueue callback rest (queues(threadScopedQueue \<mapsto> q')) s'))"

section \<open>FastLogger.hpp: the producer side\<close>

text \<open>
  \<open>Log(formatter, logLevel, args...)\<close> called by the thread \<open>self\<close>, with no consumer
  running beside it: \<open>None\<close> when the call spins on a full queue.
\<close>

definition Log ::
  "process \<Rightarrow> thread_id \<Rightarrow> LogFormatter \<Rightarrow> LogLevel \<Rightarrow> arg list \<Rightarrow> process result option" where
  "Log p self formatter logLevel args =
     (if logLevel \<ge> mLogLevel (logger p) then
        (case GetThreadScopedMessageQueue p self of (p, q) \<Rightarrow>
           (case Enqueue_emplace q (LogMessage_new formatter logLevel args) of
              None \<Rightarrow> None
            | Some (Undefined e) \<Rightarrow> Some (Undefined e)
            | Some (Ok q') \<Rightarrow>
                Some (Ok (p\<lparr>sThreadScopedQueue := (sThreadScopedQueue p)(self \<mapsto> q')\<rparr>))))
      else Some (Ok p))"

text \<open>
  \<open>WriteLog<FormatString, Args...>\<close> passes the one formatter of its template arguments;
  \<open>FAST_LOG\<close> builds the template from \<open>__PRETTY_FUNCTION__\<close>, a colon and the format
  string of the call.
\<close>

definition WriteLog ::
  "string \<Rightarrow> process \<Rightarrow> thread_id \<Rightarrow> LogLevel \<Rightarrow> arg list \<Rightarrow> process result option" where
  "WriteLog FormatString p self logLevel args =
     Log p self (LogFormatter_instance FormatString (map ctype_of args)) logLevel args"

definition FAST_LOG ::
  "string \<Rightarrow> process \<Rightarrow> thread_id \<Rightarrow> LogLevel \<Rightarrow> string \<Rightarrow> arg list \<Rightarrow> process result option" where
  "FAST_LOG pretty_function p self logLevel formatString args =
     WriteLog (makeStringLiteral [pretty_function, '':'', formatString]) p self logLevel args"

text \<open>
  A message carries a call when it points to the formatter of the call and its payload
  begins with the level byte followed by the encoded arguments.
\<close>

definition carries :: "LogMessage \<Rightarrow> LogFormatter \<Rightarrow> LogLevel \<Rightarrow> arg list \<Rightarrow> bool" where
  "carries m formatter logLevel args \<longleftrightarrow>
     mFormatter m = Some formatter \<and>
     take (1 + length (encode args)) (mPayload m) = char_of_level logLevel # encode args"

text \<open>The invariant of a message queue: the class invariant, and every slot has its payload.\<close>

definition wf_MessageQueue :: "MessageQueue \<Rightarrow> bool" where
  "wf_MessageQueue q \<longleftrightarrow>
     wf_queue q \<and> (\<forall>m\<in>set (mDataBuffer q). length (mPayload m) = PayloadSize)"

section \<open>FastLogger.hpp: the drain pass\<close>

text \<open>
  The clock belongs to the environment: \<open>now k\<close> is the broken-down local time that
  \<open>localtime_r\<close> gives for the \<open>k\<close>-th message of a pass. \<open>put_time\<close> is
  \<open>std::put_time(&tm, "%Y-%m-%d %H:%M:%S")\<close> of the standard library: the year in decimal and
  the other fields in two digits.
\<close>

record tm =
  tm_sec :: int
  tm_min :: int
  tm_hour :: int
  tm_mday :: int
  tm_mon :: int
  tm_year :: int

definition pad2 :: "int \<Rightarrow> string" where
  "pad2 n = (if n < 10 then CHR ''0'' # show_int n else show_int n)"

definition put_time :: "tm \<Rightarrow> string" where
  "put_time t =
     show_int (1900 + tm_year t) @ ''-'' @ pad2 (tm_mon t + 1) @ ''-'' @ pad2 (tm_mday t) @
     '' '' @ pad2 (tm_hour t) @ '':'' @ pad2 (tm_min t) @ '':'' @ pad2 (tm_sec t)"

text \<open>
  The body of the loop of \<open>ConsumeAndWriteLogs\<close> for one dequeued message: what it does to
  the file stream.
\<close>

definition write_message :: "ostream_fmt \<Rightarrow> tm \<Rightarrow> LogMessage \<Rightarrow> io list result" where
  "write_message os tm_buf message =
     (let oss = ''['' @ put_time tm_buf @ ''] '' in
      if mPayload message = [] then Undefined OutOfBoundsRead
      else
        let logLevel = level_of_char (mPayload message ! 0);
            oss = oss @ ''['' @ LogLevelToString logLevel @ ''] ''
        in case mFormatter message of
             None \<Rightarrow> Undefined NullFormatter
           | Some formatter \<Rightarrow>
               bind_result (Evaluate os formatter (mPayload message) 1 oss)
                 (\<lambda>oss. Ok [Write oss, Write [CHR 0x0A], Flush]))"

text \<open>
  The lambda of \<open>ConsumeAndWriteLogs\<close> on one queue: \<open>while (queue.Dequeue(message))\<close>.
  The state is the file stream and the number of messages of the pass so far.
\<close>

partial_function (option) drain ::
  "ostream_fmt \<Rightarrow> (nat \<Rightarrow> tm) \<Rightarrow> LogMessage \<Rightarrow> MessageQueue \<Rightarrow> io list \<times> nat \<Rightarrow>
   (MessageQueue \<times> io list \<times> nat) result option" where
  "drain os now message q s =
     (case Dequeue q message of (ok, message', q') \<Rightarrow>
        if ok then
          (case write_message os (now (snd s)) message' of
             Undefined e \<Rightarrow> Some (Undefined e)
           | Ok ios \<Rightarrow> drain os now message' q' (fst s @ ios, Suc (snd s)))
        else Some (Ok (q, s)))"

text \<open>\<open>message\<close> is what the uninitialised local \<open>LogMessage message\<close> holds.\<close>

definition ConsumeAndWriteLogs ::
  "ostream_fmt \<Rightarrow> (nat \<Rightarrow> tm) \<Rightarrow> LogMessage \<Rightarrow> process \<Rightarrow> process result option" where
  "ConsumeAndWriteLogs os now message p =
     (case ForEachQueue (drain os now message)
             (mThreadScopedQueues (mThreadScopedQueueManager (logger p)))
             (sThreadScopedQueue p) (mFileStream (logger p), 0) of
        None \<Rightarrow> None
      | Some (Undefined e) \<Rightarrow> Some (Undefined e)
      | Some (Ok (queues, file, _)) \<Rightarrow>
          Some (Ok (p\<lparr>sThreadScopedQueue := queues,
                      logger := (logger p)\<lparr>mFileStream := file\<rparr>\<rparr>)))"

text \<open>The messages outstanding in the queue of a thread, none if it has no queue.\<close>

definition pending :: "process \<Rightarrow> thread_id \<Rightarrow> LogMessage list" where
  "pending p t = (case sThreadScopedQueue p t of None \<Rightarrow> [] | Some q \<Rightarrow> ring q)"

section \<open>What a drain pass is to write\<close>

text \<open>
  A call is the formatter, the level and the arguments of a call of \<open>Log\<close>. A message
  holds a call when it carries it, the formatter has the types of the arguments and the
  strings among the arguments are null-terminated.
\<close>

type_synonym log_call = "LogFormatter \<times> LogLevel \<times> arg list"

fun holds_call :: "LogMessage \<Rightarrow> log_call \<Rightarrow> bool" where
  "holds_call m (formatter, logLevel, args) \<longleftrightarrow>
     carries m formatter logLevel args \<and> CArgs formatter = map ctype_of args \<and>
     list_all null_terminated args"

text \<open>
  The line of a call drained at the time \<open>t\<close>, without its newline: the time in brackets,
  the name of the level in brackets, and the template of the formatter with its
  placeholders replaced by the texts of the arguments.
\<close>

fun line_of :: "ostream_fmt \<Rightarrow> tm \<Rightarrow> log_call \<Rightarrow> string" where
  "line_of os t (formatter, logLevel, args) =
     ''['' @ put_time t @ ''] '' @ ''['' @ LogLevelToString logLevel @ ''] '' @
     render_template (mFormatString formatter) (map (render os) args)"

text \<open>
  What a pass does to the file for a list of calls, the first of them being the \<open>k\<close>-th
  message of the pass: for each call its line, a newline and a flush.
\<close>

fun lines_from :: "ostream_fmt \<Rightarrow> (nat \<Rightarrow> tm) \<Rightarrow> nat \<Rightarrow> log_call list \<Rightarrow> io list" where
  "lines_from os now k [] = []"
| "lines_from os now k (c # cs) =
     [Write (line_of os (now k) c), Write [CHR 0x0A], Flush] @ lines_from os now (Suc k) cs"

text \<open>
  A broken-down time as \<open>localtime_r\<close> gives it, of a year of four digits, and the form
  \<open>YYYY-MM-DD HH:MM:SS\<close>.
\<close>

definition valid_tm :: "tm \<Rightarrow> bool" where
  "valid_tm t \<longleftrightarrow>
     1000 \<le> 1900 + tm_year t \<and> 1900 + tm_year t \<le> 9999 \<and>
     0 \<le> tm_mon t \<and> tm_mon t \<le> 11 \<and>
     1 \<le> tm_mday t \<and> tm_mday t \<le> 31 \<and>
     0 \<le> tm_hour t \<and> tm_hour t \<le> 23 \<and>
     0 \<le> tm_min t \<and> tm_min t \<le> 59 \<and>
     0 \<le> tm_sec t \<and> tm_sec t \<le> 60"

definition is_digit :: "char \<Rightarrow> bool" where
  "is_digit c \<longleftrightarrow> (48::nat) \<le> of_char c \<and> of_char c \<le> (57::nat)"

fun timestamp_form :: "string \<Rightarrow> bool" where
  "timestamp_form s \<longleftrightarrow>
     length s = 19 \<and>
     list_all is_digit (take 4 s) \<and> s ! 4 = CHR ''-'' \<and>
     list_all is_digit (take 2 (drop 5 s)) \<and> s ! 7 = CHR ''-'' \<and>
     list_all is_digit (take 2 (drop 8 s)) \<and> s ! 10 = CHR '' '' \<and>
     list_all is_digit (take 2 (drop 11 s)) \<and> s ! 13 = CHR '':'' \<and>
     list_all is_digit (take 2 (drop 14 s)) \<and> s ! 16 = CHR '':'' \<and>
     list_all is_digit (take 2 (drop 17 s))"

text \<open>
  The state of a process between calls, with the calls its queues hold: the set of the
  manager has no repetition and no dangling pointer, every queue keeps the invariant of
  its class, the payload of every slot has its 1024 bytes, and the messages outstanding in
  the queue of each thread hold the calls \<open>calls t\<close>, oldest first (none for a thread
  without a queue).
\<close>

definition logs :: "process \<Rightarrow> (thread_id \<Rightarrow> log_call list) \<Rightarrow> bool" where
  "logs p calls \<longleftrightarrow>
     distinct (mThreadScopedQueues (mThreadScopedQueueManager (logger p))) \<and>
     (\<forall>t\<in>set (mThreadScopedQueues (mThreadScopedQueueManager (logger p))).
        sThreadScopedQueue p t \<noteq> None) \<and>
     (\<forall>t q. sThreadScopedQueue p t = Some q \<longrightarrow> wf_MessageQueue q) \<and>
     (\<forall>t. list_all2 holds_call (pending p t) (calls t))"

text \<open>A process in which nothing has been logged yet.\<close>

definition process_new :: process where
  "process_new = \<lparr>logger = FastLogger_new, sThreadScopedQueue = Map.empty\<rparr>"

text \<open>Whether the queue of a thread is full; a thread without a queue gets a new one.\<close>

definition queue_full :: "process \<Rightarrow> thread_id \<Rightarrow> bool" where
  "queue_full p t = (case sThreadScopedQueue p t of None \<Rightarrow> False | Some q \<Rightarrow> IsFull q)"

section \<open>Properties of the ring buffer\<close>

lemma spin_Some:
  assumes "spin_while_full q n = Some u"
  shows "n \<noteq> mHead q"
  by (rule spin_while_full.raw_induct [where P = "\<lambda>q n u. n \<noteq> mHead q", OF _ assms])
     (auto split: if_splits)

lemma spin_full: "spin_while_full q (mHead q) = None"
  using spin_Some [of q "mHead q"] by (cases "spin_while_full q (mHead q)") auto

lemma spin_not_full: "n \<noteq> mHead q \<Longrightarrow> spin_while_full q n = Some ()"
  by (subst spin_while_full.simps) simp

lemma spin_iff: "spin_while_full q n = None \<longleftrightarrow> n = mHead q"
  using spin_full spin_not_full by (metis option.distinct(1))

(* nat-level ring arithmetic *)
lemma cnt_if: "h < C \<Longrightarrow> t < C \<Longrightarrow> (t + C - h) mod C = (if h \<le> t then t - h else t + C - h)" for C :: nat
  by (auto simp: mod_if le_mod_geq)

lemma suc_mod_if: "t < C \<Longrightarrow> Suc t mod C = (if Suc t = C then 0 else Suc t)" for C :: nat
  by (auto simp: mod_if)

lemma cnt_zero: "h < C \<Longrightarrow> t < C \<Longrightarrow> (t + C - h) mod C = 0 \<longleftrightarrow> h = t" for C :: nat
  by (auto simp: cnt_if)

lemma cnt_full: "h < C \<Longrightarrow> t < C \<Longrightarrow> Suc t mod C = h \<longleftrightarrow> (t + C - h) mod C = C - 1" for C :: nat
  by (auto simp: cnt_if suc_mod_if)

lemma cnt_enq: "h < C \<Longrightarrow> t < C \<Longrightarrow> Suc t mod C \<noteq> h \<Longrightarrow>
   (Suc t mod C + C - h) mod C = Suc ((t + C - h) mod C)" for C :: nat
  by (auto simp: cnt_if suc_mod_if split: if_splits)

lemma cnt_deq: "h < C \<Longrightarrow> t < C \<Longrightarrow> h \<noteq> t \<Longrightarrow>
   Suc ((t + C - Suc h mod C) mod C) = (t + C - h) mod C" for C :: nat
  by (auto simp: cnt_if suc_mod_if split: if_splits)

lemma idx_if: "h < C \<Longrightarrow> k < C \<Longrightarrow> (h + k) mod C = (if h + k < C then h + k else h + k - C)" for C :: nat
  by (auto simp: mod_if le_mod_geq)

lemma idx_ne_tail: "h < C \<Longrightarrow> t < C \<Longrightarrow> k < (t + C - h) mod C \<Longrightarrow> (h + k) mod C \<noteq> t" for C :: nat
  by (auto simp: cnt_if idx_if split: if_splits)

lemma idx_tail: "h < C \<Longrightarrow> t < C \<Longrightarrow> (h + (t + C - h) mod C) mod C = t" for C :: nat
  by (auto simp: cnt_if idx_if split: if_splits)

lemma idx_shift: "(Suc h mod C + k) mod C = Suc (h + k) mod C" for C :: nat
  by (metis add_Suc mod_add_left_eq)

lemma kIndexMask_mask: "kIndexMask = mask 10"
  by (simp add: kIndexMask_def QueueSize_def mask_eq_exp_minus_1)

lemma unat_getNextIndex: "unat (getNextIndex i) = Suc (unat i) mod QueueSize"
proof -
  have "getNextIndex i = take_bit 10 (i + 1)"
    by (simp add: getNextIndex_def kIndexMask_mask take_bit_eq_mask)
  then have "unat (getNextIndex i) = take_bit 10 (unat (i + 1))"
    by (simp add: unsigned_take_bit_eq)
  also have "\<dots> = ((unat i + 1) mod 2 ^ 64) mod 2 ^ 10"
    by (simp add: take_bit_eq_mod unat_word_ariths)
  also have "\<dots> = (unat i + 1) mod 2 ^ 10"
    by (rule mod_mod_cancel) simp
  finally show ?thesis by (simp add: QueueSize_def)
qed

lemma QueueSize_pos: "0 < QueueSize"
  by (simp add: QueueSize_def)

lemma getNextIndex_lt: "unat (getNextIndex i) < QueueSize"
  by (simp add: unat_getNextIndex QueueSize_pos)

lemma wf_new: "length raw = QueueSize \<Longrightarrow> wf_queue (SPSCQueue_new raw)"
  by (simp add: wf_queue_def SPSCQueue_new_def QueueSize_pos)

lemma IsEmpty_iff: "IsEmpty q \<longleftrightarrow> mHead q = mTail q"
  by (simp add: IsEmpty_def)

lemma IsEmpty_count: "wf_queue q \<Longrightarrow> IsEmpty q \<longleftrightarrow> count q = 0"
  by (auto simp: IsEmpty_iff count_def wf_queue_def cnt_zero word_unat_eq_iff)

lemma count_lt: "count q < QueueSize"
  by (simp add: count_def QueueSize_pos)

lemma full_count:
  "wf_queue q \<Longrightarrow> getNextIndex (mTail q) = mHead q \<longleftrightarrow> count q = QueueSize - 1"
  by (simp add: word_unat_eq_iff unat_getNextIndex count_def wf_queue_def cnt_full)

lemma length_ring: "length (ring q) = count q"
  by (simp add: ring_def)

lemma Enqueue_None: "Enqueue q x = None \<longleftrightarrow> getNextIndex (mTail q) = mHead q"
  by (cases "getNextIndex (mTail q) = mHead q")
     (simp_all add: Enqueue_def Let_def spin_full spin_not_full)

lemma Enqueue_Some:
  "getNextIndex (mTail q) \<noteq> mHead q \<Longrightarrow>
   Enqueue q x = Some (q\<lparr>mDataBuffer := (mDataBuffer q)[unat (mTail q) := x],
                          mTail := getNextIndex (mTail q)\<rparr>)"
  by (simp add: Enqueue_def Let_def spin_not_full)

lemma ring_enqueue:
  fixes x :: 'a
  assumes wf: "wf_queue q" and nf: "getNextIndex (mTail q) \<noteq> mHead q"
  defines "q' \<equiv> q\<lparr>mDataBuffer := (mDataBuffer q)[unat (mTail q) := x],
                      mTail := getNextIndex (mTail q)\<rparr>"
  shows "wf_queue q'" and "count q' = Suc (count q)" and "ring q' = ring q @ [x]"
proof -
  let ?h = "unat (mHead q)" and ?t = "unat (mTail q)"
  from wf have h: "?h < QueueSize" and t: "?t < QueueSize"
    and len: "length (mDataBuffer q) = QueueSize"
    by (simp_all add: wf_queue_def)
  from nf have ne: "Suc ?t mod QueueSize \<noteq> ?h"
    by (simp add: word_unat_eq_iff unat_getNextIndex)
  show "wf_queue q'"
    using wf by (simp add: q'_def wf_queue_def getNextIndex_lt)
  show c: "count q' = Suc (count q)"
    using cnt_enq [OF h t ne] by (simp add: q'_def count_def unat_getNextIndex)
  have old: "mDataBuffer q' ! ((?h + k) mod QueueSize) = mDataBuffer q ! ((?h + k) mod QueueSize)"
    if "k < count q" for k
    using that idx_ne_tail [OF h t, of k] by (simp add: q'_def count_def)
  have new: "mDataBuffer q' ! ((?h + count q) mod QueueSize) = x"
    using idx_tail [OF h t] len t by (simp add: q'_def count_def)
  have "ring q' = map (\<lambda>k. mDataBuffer q' ! ((?h + k) mod QueueSize)) [0..<Suc (count q)]"
    by (simp add: ring_def c) (simp add: q'_def)
  also have "\<dots> = map (\<lambda>k. mDataBuffer q' ! ((?h + k) mod QueueSize)) [0..<count q] @ [x]"
    using new by simp
  also have "map (\<lambda>k. mDataBuffer q' ! ((?h + k) mod QueueSize)) [0..<count q] = ring q"
    unfolding ring_def using old by (intro map_cong) auto
  finally show "ring q' = ring q @ [x]" .
qed

lemma ring_dequeue:
  assumes wf: "wf_queue q" and ne: "mHead q \<noteq> mTail q"
  defines "q' \<equiv> q\<lparr>mHead := getNextIndex (mHead q)\<rparr>"
  shows "wf_queue q'" and "Suc (count q') = count q"
    and "ring q = mDataBuffer q ! unat (mHead q) # ring q'"
proof -
  let ?h = "unat (mHead q)" and ?t = "unat (mTail q)"
  from wf have h: "?h < QueueSize" and t: "?t < QueueSize"
    by (simp_all add: wf_queue_def)
  from ne have ne': "?h \<noteq> ?t"
    by (simp add: word_unat_eq_iff)
  show "wf_queue q'"
    using wf by (simp add: q'_def wf_queue_def getNextIndex_lt)
  show c: "Suc (count q') = count q"
    using cnt_deq [OF h t ne'] by (simp add: q'_def count_def unat_getNextIndex)
  have "ring q = map (\<lambda>k. mDataBuffer q ! ((?h + k) mod QueueSize)) [0..<Suc (count q')]"
    by (simp add: ring_def c)
  also have "\<dots> = mDataBuffer q ! ?h # map (\<lambda>k. mDataBuffer q ! ((?h + Suc k) mod QueueSize)) [0..<count q']"
    using h by (simp add: upt_rec [of 0] map_Suc_upt [symmetric] del: upt_Suc)
  also have "map (\<lambda>k. mDataBuffer q ! ((?h + Suc k) mod QueueSize)) [0..<count q'] = ring q'"
    by (simp add: ring_def q'_def unat_getNextIndex idx_shift)
  finally show "ring q = mDataBuffer q ! unat (mHead q) # ring q'" .
qed

lemma IsFull_count: "wf_queue q \<Longrightarrow> IsFull q \<longleftrightarrow> count q = QueueSize - 1"
  by (simp add: IsFull_def full_count)

lemma Dequeue_wf: "wf_queue q \<Longrightarrow> Dequeue q d = (ok, d', q') \<Longrightarrow> wf_queue q'"
  by (auto simp: Dequeue_def Let_def IsEmpty_iff ring_dequeue(1) split: if_splits)

lemma Enqueue_wf: "wf_queue q \<Longrightarrow> Enqueue q x = Some q' \<Longrightarrow> wf_queue q'"
  by (cases "getNextIndex (mTail q) = mHead q")
     (auto simp: Enqueue_None [THEN iffD2] Enqueue_Some ring_enqueue(1))

lemma exec_wf: "wf_queue q \<Longrightarrow> exec ops (q, d) = Some (q', d') \<Longrightarrow> wf_queue q'"
proof (induction ops arbitrary: q d)
  case Nil
  then show ?case by simp
next
  case (Cons a ops)
  show ?case
  proof (cases a)
    case (Enq x)
    with Cons.prems obtain q1 where e: "Enqueue q x = Some q1" and r: "exec ops (q1, d) = Some (q', d')"
      by (auto split: option.splits)
    from Enqueue_wf [OF Cons.prems(1) e] r show ?thesis by (rule Cons.IH)
  next
    case Deq
    obtain ok d1 q1 where dq: "Dequeue q d = (ok, d1, q1)" by (cases "Dequeue q d") auto
    with Cons.prems Deq have r: "exec ops (q1, d1) = Some (q', d')" by simp
    from Dequeue_wf [OF Cons.prems(1) dq] r show ?thesis by (rule Cons.IH)
  qed
qed

lemma exec_append:
  "exec (ops1 @ ops2) s = (case exec ops1 s of None \<Rightarrow> None | Some s' \<Rightarrow> exec ops2 s')"
proof (induction ops1 s rule: exec.induct)
  case (1 q d)
  then show ?case by simp
next
  case (2 x ops q d)
  then show ?case by (cases "Enqueue q x") auto
next
  case (3 ops q d)
  then show ?case by (cases "Dequeue q d") auto
qed

lemma ring_new: "ring (SPSCQueue_new raw) = []"
  by (simp add: ring_def count_def SPSCQueue_new_def QueueSize_pos)

lemma exec_enq_all:
  assumes raw: "length raw = QueueSize"
  shows "length xs < QueueSize \<Longrightarrow>
    \<exists>q1. exec (map Enq xs) (SPSCQueue_new raw, d) = Some (q1, d) \<and> wf_queue q1 \<and> ring q1 = xs"
proof (induction xs rule: rev_induct)
  case Nil
  then show ?case using raw by (simp add: wf_new ring_new)
next
  case (snoc x xs)
  then obtain q1 where q1: "exec (map Enq xs) (SPSCQueue_new raw, d) = Some (q1, d)"
    "wf_queue q1" "ring q1 = xs" by auto
  from snoc.prems q1 have "count q1 \<noteq> QueueSize - 1"
    using length_ring [of q1] by simp
  then have nf: "getNextIndex (mTail q1) \<noteq> mHead q1"
    using q1(2) by (simp add: full_count)
  let ?q2 = "q1\<lparr>mDataBuffer := (mDataBuffer q1)[unat (mTail q1) := x],
                 mTail := getNextIndex (mTail q1)\<rparr>"
  have "exec (map Enq (xs @ [x])) (SPSCQueue_new raw, d) = Some (?q2, d)"
    by (simp add: exec_append q1(1) Enqueue_Some [OF nf])
  moreover have "wf_queue ?q2" "ring ?q2 = xs @ [x]"
    using ring_enqueue [OF q1(2) nf, of x] q1(3) by simp_all
  ultimately show ?case by blast
qed


section \<open>Properties of the interleaved queue\<close>

lemma next_inj:
  assumes "wf_queue q" and "mHead q \<noteq> mTail q"
  shows "getNextIndex (mTail q) \<noteq> getNextIndex (mHead q)"
proof -
  from assms(1) have h: "unat (mHead q) < QueueSize" and t: "unat (mTail q) < QueueSize"
    by (simp_all add: wf_queue_def)
  from assms(2) have "unat (mHead q) \<noteq> unat (mTail q)"
    by (simp add: word_unat_eq_iff)
  with h t have "Suc (unat (mTail q)) mod QueueSize \<noteq> Suc (unat (mHead q)) mod QueueSize"
    by (auto simp: suc_mod_if split: if_splits)
  then show ?thesis
    by (simp add: word_unat_eq_iff unat_getNextIndex)
qed

lemma ring_write_tail:
  assumes wf: "wf_queue q"
  shows "ring (q\<lparr>mDataBuffer := (mDataBuffer q)[unat (mTail q) := x]\<rparr>) = ring q"
proof -
  from wf have h: "unat (mHead q) < QueueSize" and t: "unat (mTail q) < QueueSize"
    by (simp_all add: wf_queue_def)
  have "(mDataBuffer q)[unat (mTail q) := x] ! ((unat (mHead q) + k) mod QueueSize) =
        mDataBuffer q ! ((unat (mHead q) + k) mod QueueSize)" if "k < count q" for k
    using idx_ne_tail [OF h t, of k] that by (simp add: count_def)
  then show ?thesis
    by (simp add: ring_def count_def)
qed

lemma ring_publish:
  assumes wf: "wf_queue q" and nf: "getNextIndex (mTail q) \<noteq> mHead q"
  shows "ring (q\<lparr>mTail := getNextIndex (mTail q)\<rparr>) = ring q @ [mDataBuffer q ! unat (mTail q)]"
  using ring_enqueue(3) [OF wf nf, of "mDataBuffer q ! unat (mTail q)"] by simp

lemma inv_new: "length raw = QueueSize \<Longrightarrow> system_inv (system_new raw)"
  by (simp add: system_inv_def system_new_def wf_new ring_new)

lemma inv_call_Enqueue: "system_inv s \<Longrightarrow> system_inv (call_Enqueue x s)"
  by (cases "producer s") (simp_all add: call_Enqueue_def system_inv_def Let_def)

lemma inv_call_Dequeue: "system_inv s \<Longrightarrow> system_inv (call_Dequeue s)"
  by (cases "consumer s") (simp_all add: call_Dequeue_def system_inv_def IsEmpty_iff)

lemma inv_step_producer:
  assumes inv: "system_inv s"
  shows "system_inv (step_producer s)"
proof (cases "producer s")
  case P_idle
  with inv show ?thesis by (simp add: step_producer_def)
next
  case (P_spin w n x)
  with inv show ?thesis
    by (simp add: step_producer_def system_inv_def)
next
  case (P_write w n x)
  let ?q = "queue s"
  let ?q' = "?q\<lparr>mDataBuffer := (mDataBuffer ?q)[unat (mTail ?q) := x]\<rparr>"
  from inv have wf: "wf_queue ?q" by (simp add: system_inv_def)
  from inv P_write have w: "w = mTail ?q" and n: "n = getNextIndex (mTail ?q)"
    and nf: "n \<noteq> mHead ?q"
    by (auto simp: system_inv_def)
  from wf have t: "unat (mTail ?q) < length (mDataBuffer ?q)" by (simp add: wf_queue_def)
  have c: "consumer_inv ?q' (consumer s)"
    using inv by (cases "consumer s") (auto simp: system_inv_def word_unat_eq_iff)
  have wf': "wf_queue ?q'"
    using wf by (simp add: wf_queue_def)
  show ?thesis
    using inv P_write w n nf t c wf' ring_write_tail [OF wf, of x]
    by (simp add: step_producer_def system_inv_def)
next
  case (P_publish n)
  let ?q = "queue s"
  let ?q' = "?q\<lparr>mTail := getNextIndex (mTail ?q)\<rparr>"
  from inv have wf: "wf_queue ?q" by (simp add: system_inv_def)
  from inv P_publish have n: "n = getNextIndex (mTail ?q)" and nf: "n \<noteq> mHead ?q"
    by (auto simp: system_inv_def)
  have c: "consumer_inv ?q' (consumer s)"
    using inv n nf by (cases "consumer s") (auto simp: system_inv_def)
  have wf': "wf_queue ?q'"
    using wf getNextIndex_lt [of "mTail ?q"] by (simp add: wf_queue_def)
  show ?thesis
    using inv P_publish n nf c wf' ring_publish [OF wf]
    by (simp add: step_producer_def system_inv_def)
qed

lemma inv_step_consumer:
  assumes inv: "system_inv s"
  shows "system_inv (step_consumer s)"
proof (cases "consumer s")
  case C_idle
  with inv show ?thesis by (simp add: step_consumer_def)
next
  case C_load
  with inv show ?thesis
    by (simp add: step_consumer_def system_inv_def)
next
  case (C_copy r)
  with inv show ?thesis
    by (simp add: step_consumer_def system_inv_def)
next
  case (C_store r d)
  let ?q = "queue s"
  let ?q' = "?q\<lparr>mHead := getNextIndex (mHead ?q)\<rparr>"
  from inv have wf: "wf_queue ?q" by (simp add: system_inv_def)
  from inv C_store have ne: "mHead ?q \<noteq> mTail ?q" and r: "r = mHead ?q"
    and d: "d = mDataBuffer ?q ! unat (mHead ?q)"
    by (auto simp: system_inv_def)
  note rd = ring_dequeue [OF wf ne]
  have p: "producer_inv ?q' (producer s)"
    using inv next_inj [OF wf ne] by (cases "producer s") (auto simp: system_inv_def)
  have f: "in_flight ?q' (producer s) = in_flight ?q (producer s)"
    by (cases "producer s") simp_all
  from inv have "enqueued s = dequeued s @ ring ?q @ in_flight ?q (producer s)"
    by (simp add: system_inv_def)
  with rd(3) d have "enqueued s = (dequeued s @ [d]) @ ring ?q' @ in_flight ?q (producer s)"
    by simp
  with rd(1) p f C_store r show ?thesis
    by (simp add: step_consumer_def system_inv_def)
qed

lemma inv_step: "system_inv s \<Longrightarrow> system_inv (step a s)"
  by (cases a) (simp_all add: inv_call_Enqueue inv_step_producer inv_call_Dequeue inv_step_consumer)

lemma inv_run: "system_inv s \<Longrightarrow> system_inv (run as s)"
  by (induction as arbitrary: s) (simp_all add: inv_step)

lemma Dequeue_as_steps:
  assumes "consumer s = C_idle"
  shows "case Dequeue (queue s) d of (ok, d', q') \<Rightarrow>
           run [CallDequeue, StepConsumer, StepConsumer, StepConsumer] s =
             s\<lparr>queue := q', dequeued := dequeued s @ (if ok then [d'] else [])\<rparr>"
  using assms
  by (simp add: Dequeue_def call_Dequeue_def step_consumer_def Let_def)

lemma Enqueue_as_steps:
  assumes "producer s = P_idle" and "Enqueue (queue s) x = Some q'"
  shows "run [CallEnqueue x, StepProducer, StepProducer, StepProducer] s =
           s\<lparr>queue := q', enqueued := enqueued s @ [x]\<rparr>"
proof -
  from assms(2) have nf: "getNextIndex (mTail (queue s)) \<noteq> mHead (queue s)"
    using Enqueue_None [of "queue s" x] by auto
  from assms(2) have "q' = (queue s)\<lparr>mDataBuffer := (mDataBuffer (queue s))[unat (mTail (queue s)) := x],
      mTail := getNextIndex (mTail (queue s))\<rparr>"
    by (simp add: Enqueue_Some [OF nf])
  with assms(1) nf show ?thesis
    by (simp add: call_Enqueue_def step_producer_def Let_def)
qed


section \<open>Properties of the argument encoding\<close>

lemma bind_result_Ok [simp]: "bind_result (Ok x) f = f x"
  by (simp add: bind_result_def)

lemma bind_result_Undefined [simp]: "bind_result (Undefined e) f = Undefined e"
  by (simp add: bind_result_def)

lemma bind_result_eq_Ok:
  "bind_result r f = Ok y \<longleftrightarrow> (\<exists>x. r = Ok x \<and> f x = Ok y)"
  by (cases r) simp_all

lemma length_le_bytes [simp]: "length (le_bytes n x) = n"
  by (induction n arbitrary: x) simp_all

lemma le_nat_le_bytes: "le_nat (le_bytes n x) = x mod 256 ^ n"
proof (induction n arbitrary: x)
  case 0
  then show ?case by simp
next
  case (Suc n)
  have "of_char (char_of (x mod 256)) = x mod 256"
    by simp 
  then have "le_nat (le_bytes (Suc n) x) = x mod 256 + 256 * (x div 256 mod 256 ^ n)"
    by (simp add: Suc.IH)
  also have "\<dots> = x mod 256 ^ Suc n"
    by (simp add: mod_mult2_eq)
  finally show ?case .
qed

lemma word_of_le_bytes:
  fixes w :: "'a::len word"
  assumes "LENGTH('a) = 8 * n"
  shows "of_nat (le_nat (le_bytes n (unat w))) = w"
proof -
  have "(256::nat) ^ n = 2 ^ LENGTH('a)"
    using assms by (simp add: power_mult)
  then have "unat w mod 256 ^ n = unat w"
    by (simp add: unsigned_less)
  then show ?thesis
    by (simp add: le_nat_le_bytes)
qed

lemma object_roundtrip:
  "ctype_of a \<noteq> T_string \<Longrightarrow> ctype_of a \<noteq> T_cstr \<Longrightarrow>
   object_of_bytes (ctype_of a) (object_bytes a) = a"
proof (cases a)
  case (A_bool b)
  then show ?thesis by (cases b) (simp_all add: le_nat_le_bytes del: le_bytes.simps)
qed (simp_all add: word_of_le_bytes del: le_bytes.simps)

lemma length_object_bytes: "length (object_bytes a) = sizeof (ctype_of a)"
  by (cases a) simp_all

lemma length_arg_bytes_scalar:
  "ctype_of a \<noteq> T_string \<Longrightarrow> ctype_of a \<noteq> T_cstr \<Longrightarrow>
   arg_bytes a = object_bytes a"
  by (cases a) simp_all

lemma memcpy_Ok_iff:
  "memcpy buffer off src = Ok b \<longleftrightarrow>
     off + length src \<le> length buffer \<and>
     b = take off buffer @ src @ drop (off + length src) buffer"
  by (auto simp: memcpy_def)

lemma memcpy_twice:
  assumes "off + length s + 1 \<le> length buffer"
  shows "bind_result (memcpy buffer off s) (\<lambda>b. memcpy b (off + length s) [c]) =
         Ok (take off buffer @ (s @ [c]) @ drop (off + length s + 1) buffer)"
proof -
  let ?b = "take off buffer @ s @ drop (off + length s) buffer"
  from assms have 1: "memcpy buffer off s = Ok ?b"
    by (simp add: memcpy_def)
  from assms have len: "length ?b = length buffer" by simp
  from assms have t: "take (off + length s) ?b = take off buffer @ s"
    by simp
  from assms have d: "drop (off + length s + 1) ?b = drop (off + length s + 1) buffer"
    by simp
  have "memcpy ?b (off + length s) [c] = Ok (take (off + length s) ?b @ [c] @ drop (off + length s + 1) ?b)"
    using assms len by (simp add: memcpy_def del: take_append drop_append)
  with 1 t d show ?thesis by simp
qed

lemma memcpy_twice_fail:
  assumes "\<not> off + length s + 1 \<le> length buffer"
  shows "bind_result (memcpy buffer off s) (\<lambda>b. memcpy b (off + length s) [c]) =
         Undefined OutOfBoundsWrite"
proof (cases "off + length s \<le> length buffer")
  case True
  then have "memcpy buffer off s = Ok (take off buffer @ s @ drop (off + length s) buffer)"
    by (simp add: memcpy_def)
  moreover have "length (take off buffer @ s @ drop (off + length s) buffer) = length buffer"
    using True by simp
  ultimately show ?thesis
    using assms by (simp add: memcpy_def del: take_append drop_append)
next
  case False
  then show ?thesis by (simp add: memcpy_def)
qed

lemma length_c_str_le: "length (c_str s) \<le> length s"
  by (simp add: c_str_def length_takeWhile_le)

lemma take_strlen: "take (strlen s) s = c_str s"
  by (simp add: strlen_def c_str_def takeWhile_eq_take [symmetric])

lemma CopyData_eq:
  "CopyData buffer off a =
     (if off + length (arg_bytes a) \<le> length buffer
      then Ok (take off buffer @ arg_bytes a @ drop (off + length (arg_bytes a)) buffer,
               off + length (arg_bytes a))
      else Undefined OutOfBoundsWrite)"
proof (cases "ctype_of a = T_string \<or> ctype_of a = T_cstr")
  case False
  then have "CopyData buffer off a =
      bind_result (memcpy buffer off (object_bytes a)) (\<lambda>b. Ok (b, off + sizeof (ctype_of a)))"
    by (cases a) simp_all
  with False show ?thesis
    by (simp add: length_arg_bytes_scalar memcpy_def length_object_bytes)
next
  case True
  then consider s where "a = A_string s" | s where "a = A_cstr s"
    by (cases a) auto
  then show ?thesis
  proof cases
    case 1
    have "CopyData buffer off a =
       bind_result (bind_result (memcpy buffer off s) (\<lambda>b. memcpy b (off + length s) [CHR 0x00]))
         (\<lambda>b. Ok (b, off + length s + 1))"
      by (cases "memcpy buffer off s") (simp_all add: 1)
    then show ?thesis
      using memcpy_twice [of off s buffer] memcpy_twice_fail [of off s buffer]
      by (cases "off + length s + 1 \<le> length buffer") (simp_all add: 1)
  next
    case 2
    have "CopyData buffer off a =
       bind_result (bind_result (memcpy buffer off (c_str s))
                      (\<lambda>b. memcpy b (off + length (c_str s)) [CHR 0x00]))
         (\<lambda>b. Ok (b, off + length (c_str s) + 1))"
      by (cases "memcpy buffer off (c_str s)") (simp_all add: 2 Let_def take_strlen, simp_all add: strlen_def)
    then show ?thesis
      using memcpy_twice [of off "c_str s" buffer] memcpy_twice_fail [of off "c_str s" buffer]
      by (cases "off + length (c_str s) + 1 \<le> length buffer") (simp_all add: 2)
  qed
qed

lemma CopyArgs_Cons:
  "CopyArgs buffer off (a # as) =
     bind_result (CopyData buffer off a) (\<lambda>(b, off'). CopyArgs b off' as)"
  by (cases as; cases "CopyData buffer off a") auto

lemma encode_Cons: "encode (a # as) = arg_bytes a @ encode as"
  by (simp add: encode_def)

lemma encode_Nil: "encode [] = []"
  by (simp add: encode_def)

lemma CopyArgs_eq:
  "off \<le> length buffer \<Longrightarrow>
   CopyArgs buffer off args =
     (if off + length (encode args) \<le> length buffer
      then Ok (take off buffer @ encode args @ drop (off + length (encode args)) buffer,
               off + length (encode args))
      else Undefined OutOfBoundsWrite)"
proof (induction args arbitrary: buffer off)
  case Nil
  then show ?case
    by (simp add: encode_Nil) 
next
  case (Cons a as)
  let ?n = "length (arg_bytes a)"
  show ?case
  proof (cases "off + ?n \<le> length buffer")
    case False
    then show ?thesis
      by (simp add: CopyArgs_Cons CopyData_eq encode_Cons)
  next
    case True
    let ?b = "take off buffer @ arg_bytes a @ drop (off + ?n) buffer"
    from True have len: "length ?b = length buffer" by simp
    have step: "CopyArgs buffer off (a # as) = CopyArgs ?b (off + ?n) as"
      using True by (simp add: CopyArgs_Cons CopyData_eq)
    from True len have le: "off + ?n \<le> length ?b" by simp
    note IH = Cons.IH [OF le]
    show ?thesis
    proof (cases "off + ?n + length (encode as) \<le> length buffer")
      case False
      with len show ?thesis
        unfolding step IH by (simp add: encode_Cons add.assoc)
    next
      case fits: True
      have t: "take (off + ?n) ?b = take off buffer @ arg_bytes a"
        using True by simp
      have d: "drop (off + ?n + length (encode as)) ?b =
               drop (off + ?n + length (encode as)) buffer"
        using True by (simp add: ac_simps)
      from fits len t d show ?thesis
        unfolding step IH by (simp add: encode_Cons add.assoc del: take_append drop_append)
    qed
  qed
qed

lemma c_str_null_free: "CHR 0x00 \<notin> set (c_str s)"
  by (auto simp: c_str_def dest: set_takeWhileD)

lemma c_str_append_null: "CHR 0x00 \<notin> set s \<Longrightarrow> c_str (s @ CHR 0x00 # post) = s"
proof -
  assume "CHR 0x00 \<notin> set s"
  then have "\<And>x. x \<in> set s \<Longrightarrow> x \<noteq> CHR 0x00" by auto
  then have "takeWhile (\<lambda>c. c \<noteq> CHR 0x00) (s @ CHR 0x00 # post) =
             s @ takeWhile (\<lambda>c. c \<noteq> CHR 0x00) (CHR 0x00 # post)"
    by (rule takeWhile_append2)
  then show ?thesis by (simp add: c_str_def)
qed

lemma PrintData_encoded:
  assumes off: "length pre = off" and nt: "null_terminated a"
  shows "PrintData os (ctype_of a) (pre @ arg_bytes a @ post) off stream =
           Ok (stream @ render os a, off + length (arg_bytes a))"
proof (cases "ctype_of a = T_string \<or> ctype_of a = T_cstr")
  case False
  then have ab: "arg_bytes a = object_bytes a"
    by (simp add: length_arg_bytes_scalar)
  have "take (sizeof (ctype_of a)) (drop off (pre @ object_bytes a @ post)) = object_bytes a"
    using off by (simp add: length_object_bytes)
  with False off show ?thesis
    by (simp add: PrintData_def ab object_roundtrip length_object_bytes
        del: take_append drop_append)
next
  case True
  then consider s where "a = A_string s" | s where "a = A_cstr s"
    by (cases a) auto
  then show ?thesis
  proof cases
    case 1
    with nt have "c_str (s @ CHR 0x00 # post) = s"
      by (simp add: c_str_append_null)
    with off 1 show ?thesis
      by (simp add: PrintData_def Let_def)
  next
    case 2
    have "c_str (c_str s @ CHR 0x00 # post) = c_str s"
      using c_str_null_free by (rule c_str_append_null)
    with off 2 show ?thesis
      by (simp add: PrintData_def Let_def)
  qed
qed

lemma Format_encoded:
  assumes "\<forall>a\<in>set args. null_terminated a"
  shows "length pre = off \<Longrightarrow>
         Format os (map ctype_of args) (pre @ encode args @ post) off template stream =
           Ok (stream @ render_template template (map (render os) args))"
  using assms
proof (induction args arbitrary: pre off template stream)
  case Nil
  then show ?case by simp
next
  case (Cons a as)
  show ?case
  proof (cases "strstr template ''{}''")
    case None
    then show ?thesis by simp
  next
    case (Some n)
    from Cons.prems have nt: "null_terminated a" and rest: "\<forall>a\<in>set as. null_terminated a"
      by simp_all
    have pd: "PrintData os (ctype_of a) (pre @ encode (a # as) @ post) off (stream @ take n template) =
              Ok ((stream @ take n template) @ render os a, off + length (arg_bytes a))"
      using PrintData_encoded [OF Cons.prems(1) nt, of os "encode as @ post"]
      by (simp add: encode_Cons)
    have "length (pre @ arg_bytes a) = off + length (arg_bytes a)"
      using Cons.prems(1) by simp
    from Cons.IH [OF this rest, of "drop (n + 2) template" "(stream @ take n template) @ render os a"]
    have "Format os (map ctype_of as) (pre @ encode (a # as) @ post) (off + length (arg_bytes a))
            (drop (n + 2) template) ((stream @ take n template) @ render os a) =
          Ok (((stream @ take n template) @ render os a) @
              render_template (drop (n + 2) template) (map (render os) as))"
      by (simp add: encode_Cons)
    with pd Some show ?thesis by simp
  qed
qed


lemma show_nat_digit: "n < 10 \<Longrightarrow> show_nat n = [digit n]"
  by (subst show_nat.simps) simp

lemma le_bytes_numeral:
  "le_bytes (numeral k) x = char_of (x mod 256) # le_bytes (pred_numeral k) (x div 256)"
proof -
  have "numeral k = Suc (pred_numeral k)" by (rule numeral_eq_Suc)
  then show ?thesis by (simp only: le_bytes.simps)
qed



lemma show_nat_step: "10 \<le> n \<Longrightarrow> show_nat n = show_nat (n div 10) @ [digit (n mod 10)]"
  by (subst show_nat.simps) simp

lemma CopyData_cstr_truncates:
  "CopyData buffer off (A_cstr s) = CopyData buffer off (A_cstr (c_str s))"
proof -
  have "c_str (c_str s) = c_str s"
    by (simp add: c_str_def)
  then show ?thesis
    by (simp add: CopyData_eq)
qed


section \<open>Properties of the producer side\<close>

lemma PayloadSize_pos: "0 < PayloadSize"
  by (simp add: PayloadSize_def)

lemma LogMessage_level_eq:
  assumes "length (mPayload raw) = PayloadSize"
  shows "LogMessage_level formatter logLevel raw =
           Ok \<lparr>mFormatter = Some formatter,
               mPayload = char_of_level logLevel # drop 1 (mPayload raw)\<rparr>"
  using assms PayloadSize_pos by (simp add: LogMessage_level_def memcpy_def)

lemma LogMessage_new_eq:
  assumes len: "length (mPayload raw) = PayloadSize"
  shows "LogMessage_new formatter logLevel args raw =
     (if 1 + length (encode args) \<le> PayloadSize
      then Ok \<lparr>mFormatter = Some formatter,
               mPayload = char_of_level logLevel # encode args @
                          drop (1 + length (encode args)) (mPayload raw)\<rparr>
      else Undefined OutOfBoundsWrite)"
proof (cases "args = []")
  case True
  with len PayloadSize_pos show ?thesis
    by (simp add: LogMessage_new_def LogMessage_level_eq encode_Nil)
next
  case False
  let ?b = "char_of_level logLevel # drop 1 (mPayload raw)"
  let ?n = "length (encode args)"
  from len PayloadSize_pos have lb: "length ?b = PayloadSize" by simp
  then have one: "1 \<le> length ?b" using PayloadSize_pos by simp
  have lvl: "LogMessage_level formatter logLevel raw = Ok \<lparr>mFormatter = Some formatter, mPayload = ?b\<rparr>"
    by (rule LogMessage_level_eq [OF len])
  have new: "LogMessage_new formatter logLevel args raw =
      bind_result (CopyArgs ?b 1 args)
        (\<lambda>(buffer, _). Ok \<lparr>mFormatter = Some formatter, mPayload = buffer\<rparr>)"
    using False by (simp add: LogMessage_new_def LogMessage_args_def lvl)
  show ?thesis
  proof (cases "1 + ?n \<le> PayloadSize")
    case True
    have "take 1 ?b @ encode args @ drop (1 + ?n) ?b =
          char_of_level logLevel # encode args @ drop (1 + ?n) (mPayload raw)"
      by simp
    moreover have "CopyArgs ?b 1 args = Ok (take 1 ?b @ encode args @ drop (1 + ?n) ?b, 1 + ?n)"
      using True lb by (simp only: CopyArgs_eq [OF one] if_True)
    ultimately show ?thesis
      using True by (simp only: new bind_result_Ok split if_True)
  next
    case False
    then have "CopyArgs ?b 1 args = Undefined OutOfBoundsWrite"
      using lb by (simp only: CopyArgs_eq [OF one] if_False)
    with False show ?thesis
      by (simp only: new bind_result_Undefined if_False)
  qed
qed

lemma Enqueue_emplace_full: "IsFull q \<Longrightarrow> Enqueue_emplace q construct = None"
  by (simp add: Enqueue_emplace_def IsFull_def Let_def spin_full)

lemma Enqueue_emplace_not_full:
  "\<not> IsFull q \<Longrightarrow>
   Enqueue_emplace q construct =
     Some (bind_result (construct (mDataBuffer q ! unat (mTail q)))
             (\<lambda>obj. Ok (q\<lparr>mDataBuffer := (mDataBuffer q)[unat (mTail q) := obj],
                           mTail := getNextIndex (mTail q)\<rparr>)))"
  by (simp add: Enqueue_emplace_def IsFull_def Let_def spin_not_full)

lemma wf_ThreadScopedQueue_new: "wf_MessageQueue ThreadScopedQueue_new"
proof -
  have "wf_queue (SPSCQueue_new (replicate QueueSize zero_LogMessage))"
    by (rule wf_new) simp
  moreover have "\<forall>m\<in>set (mDataBuffer (SPSCQueue_new (replicate QueueSize zero_LogMessage))).
      length (mPayload m) = PayloadSize"
    by (simp add: SPSCQueue_new_def zero_LogMessage_def)
  ultimately show ?thesis
    by (simp add: wf_MessageQueue_def ThreadScopedQueue_new_def)
qed

lemma ThreadScopedQueue_new_not_full: "\<not> IsFull ThreadScopedQueue_new"
  by (simp add: IsFull_def ThreadScopedQueue_new_def SPSCQueue_new_def getNextIndex_def
      kIndexMask_def QueueSize_def)

lemma ring_ThreadScopedQueue_new: "ring ThreadScopedQueue_new = []"
  by (simp add: ThreadScopedQueue_new_def ring_new)

lemma emplace_message:
  assumes wf: "wf_MessageQueue q" and nf: "\<not> IsFull q"
    and fits: "1 + length (encode args) \<le> PayloadSize"
  shows "\<exists>q' m. Enqueue_emplace q (LogMessage_new formatter logLevel args) = Some (Ok q') \<and>
           wf_MessageQueue q' \<and> ring q' = ring q @ [m] \<and> carries m formatter logLevel args \<and>
           mHead q' = mHead q"
proof -
  let ?raw = "mDataBuffer q ! unat (mTail q)"
  let ?m = "\<lparr>mFormatter = Some formatter,
             mPayload = char_of_level logLevel # encode args @
                        drop (1 + length (encode args)) (mPayload ?raw)\<rparr>"
  let ?q' = "q\<lparr>mDataBuffer := (mDataBuffer q)[unat (mTail q) := ?m],
               mTail := getNextIndex (mTail q)\<rparr>"
  from wf have wfq: "wf_queue q"
    and slots: "\<forall>m\<in>set (mDataBuffer q). length (mPayload m) = PayloadSize"
    by (simp_all add: wf_MessageQueue_def)
  from wfq have "unat (mTail q) < length (mDataBuffer q)" by (simp add: wf_queue_def)
  then have "?raw \<in> set (mDataBuffer q)" by simp
  with slots have len: "length (mPayload ?raw) = PayloadSize" by blast
  from nf have nf': "getNextIndex (mTail q) \<noteq> mHead q" by (simp add: IsFull_def)
  have e: "Enqueue_emplace q (LogMessage_new formatter logLevel args) = Some (Ok ?q')"
    using fits by (simp add: Enqueue_emplace_not_full [OF nf] LogMessage_new_eq [OF len])
  have lm: "length (mPayload ?m) = PayloadSize"
    using fits len by simp
  have "\<forall>m\<in>set (mDataBuffer ?q'). length (mPayload m) = PayloadSize"
    using slots lm by (auto dest!: set_update_subset_insert [THEN subsetD])
  with ring_enqueue(1) [OF wfq nf', of ?m] have wf': "wf_MessageQueue ?q'"
    by (simp add: wf_MessageQueue_def)
  have r: "ring ?q' = ring q @ [?m]"
    by (rule ring_enqueue(3) [OF wfq nf'])
  have c: "carries ?m formatter logLevel args"
    by (simp add: carries_def)
  from e wf' r c show ?thesis by auto
qed


lemma Log_below: "logLevel < mLogLevel (logger p) \<Longrightarrow> Log p self formatter logLevel args = Some (Ok p)"
  by (simp add: Log_def not_le [symmetric])

lemma Log_enqueues:
  assumes lvl: "mLogLevel (logger p) \<le> logLevel"
    and wf: "\<And>q. sThreadScopedQueue p self = Some q \<Longrightarrow> wf_MessageQueue q \<and> \<not> IsFull q"
    and fits: "1 + length (encode args) \<le> PayloadSize"
  shows "\<exists>p' q' m. Log p self formatter logLevel args = Some (Ok p') \<and>
           sThreadScopedQueue p' = (sThreadScopedQueue p)(self \<mapsto> q') \<and>
           wf_MessageQueue q' \<and>
           ring q' = pending p self @ [m] \<and>
           carries m formatter logLevel args \<and>
           mFileStream (logger p') = mFileStream (logger p) \<and>
           mLogLevel (logger p') = mLogLevel (logger p) \<and>
           mThreadScopedQueues (mThreadScopedQueueManager (logger p')) =
             (case sThreadScopedQueue p self of
                None \<Rightarrow> List.insert self (mThreadScopedQueues (mThreadScopedQueueManager (logger p)))
              | Some _ \<Rightarrow> mThreadScopedQueues (mThreadScopedQueueManager (logger p)))"
proof (cases "sThreadScopedQueue p self")
  case None
  let ?p1 = "p\<lparr>sThreadScopedQueue := (sThreadScopedQueue p)(self \<mapsto> ThreadScopedQueue_new),
             logger := (logger p)\<lparr>mThreadScopedQueueManager :=
               RegisterScopedQueue (mThreadScopedQueueManager (logger p)) self\<rparr>\<rparr>"
  have g: "GetThreadScopedMessageQueue p self = (?p1, ThreadScopedQueue_new)"
    by (simp add: GetThreadScopedMessageQueue_def None)
  from emplace_message [OF wf_ThreadScopedQueue_new ThreadScopedQueue_new_not_full fits,
      of formatter logLevel]
  obtain q' m where e: "Enqueue_emplace ThreadScopedQueue_new (LogMessage_new formatter logLevel args) = Some (Ok q')"
    and q': "wf_MessageQueue q'" "ring q' = ring ThreadScopedQueue_new @ [m]"
      "carries m formatter logLevel args"
    by blast
  have "Log p self formatter logLevel args =
          Some (Ok (?p1\<lparr>sThreadScopedQueue := (sThreadScopedQueue ?p1)(self \<mapsto> q')\<rparr>))"
    using lvl by (simp add: Log_def g e)
  with q' None show ?thesis
    by (auto simp: pending_def ring_ThreadScopedQueue_new RegisterScopedQueue_def)
next
  case (Some q)
  have g: "GetThreadScopedMessageQueue p self = (p, q)"
    by (simp add: GetThreadScopedMessageQueue_def Some)
  from wf [OF Some] have wfq: "wf_MessageQueue q" and nf: "\<not> IsFull q" by simp_all
  from emplace_message [OF wfq nf fits, of formatter logLevel]
  obtain q' m where e: "Enqueue_emplace q (LogMessage_new formatter logLevel args) = Some (Ok q')"
    and q': "wf_MessageQueue q'" "ring q' = ring q @ [m]" "carries m formatter logLevel args"
    by blast
  have "Log p self formatter logLevel args =
          Some (Ok (p\<lparr>sThreadScopedQueue := (sThreadScopedQueue p)(self \<mapsto> q')\<rparr>))"
    using lvl by (simp add: Log_def g e)
  with q' Some show ?thesis
    by (auto simp: pending_def)
qed


lemma Log_overflow:
  assumes lvl: "mLogLevel (logger p) \<le> logLevel"
    and wf: "\<And>q. sThreadScopedQueue p self = Some q \<Longrightarrow> wf_MessageQueue q \<and> \<not> IsFull q"
    and over: "PayloadSize < 1 + length (encode args)"
  shows "Log p self formatter logLevel args = Some (Undefined OutOfBoundsWrite)"
proof -
  obtain p1 q where g: "GetThreadScopedMessageQueue p self = (p1, q)"
    by (cases "GetThreadScopedMessageQueue p self")
  have q: "wf_MessageQueue q \<and> \<not> IsFull q"
  proof (cases "sThreadScopedQueue p self")
    case None
    with g have "q = ThreadScopedQueue_new"
      by (simp add: GetThreadScopedMessageQueue_def)
    then show ?thesis
      by (simp add: wf_ThreadScopedQueue_new ThreadScopedQueue_new_not_full)
  next
    case (Some q0)
    with g have "q = q0" by (simp add: GetThreadScopedMessageQueue_def)
    with wf [OF Some] show ?thesis by simp
  qed
  let ?raw = "mDataBuffer q ! unat (mTail q)"
  from q have "unat (mTail q) < length (mDataBuffer q)"
    by (simp add: wf_MessageQueue_def wf_queue_def)
  then have "?raw \<in> set (mDataBuffer q)" by simp
  with q have len: "length (mPayload ?raw) = PayloadSize"
    by (simp add: wf_MessageQueue_def)
  from q have nf: "\<not> IsFull q" by simp
  have "Enqueue_emplace q (LogMessage_new formatter logLevel args) =
          Some (Undefined OutOfBoundsWrite)"
    using over by (simp add: Enqueue_emplace_not_full [OF nf] LogMessage_new_eq [OF len])
  with lvl g show ?thesis
    by (simp add: Log_def)
qed

lemma length_encode_string: "length (encode [A_string s]) = Suc (length s)"
  by (simp add: encode_def)


lemma UnRegister_after_idle_sleep:
  assumes q: "sThreadScopedQueue p t = Some q"
    and idle: "sThreadScopedQueue (during_sleep p) t = Some q"
  shows "\<exists>p'. UnRegisterThreadScopedQueue during_sleep p t = Ok p' \<and>
           t \<notin> set (mThreadScopedQueues (mThreadScopedQueueManager (logger p'))) \<and>
           sThreadScopedQueue p' t = Some q"
  using assms by (simp add: UnRegisterThreadScopedQueue_def Let_def)



lemma Enqueue_full: "IsFull q \<Longrightarrow> Enqueue q x = None"
  by (simp add: Enqueue_None IsFull_def)

lemma Enqueue_emplace_eq:
  "\<not> IsFull q \<Longrightarrow>
   Enqueue_emplace q construct =
     Some (case construct (mDataBuffer q ! unat (mTail q)) of
             Ok obj \<Rightarrow> Ok (q\<lparr>mDataBuffer := (mDataBuffer q)[unat (mTail q) := obj],
                              mTail := getNextIndex (mTail q)\<rparr>)
           | Undefined e \<Rightarrow> Undefined e)"
  by (cases "construct (mDataBuffer q ! unat (mTail q))")
     (simp_all add: Enqueue_emplace_not_full)



lemma Log_full:
  assumes "mLogLevel (logger p) \<le> logLevel" and "queue_full p self"
  shows "Log p self formatter logLevel args = None"
proof -
  from assms(2) obtain q where q: "sThreadScopedQueue p self = Some q" and f: "IsFull q"
    by (auto simp: queue_full_def split: option.splits)
  have "GetThreadScopedMessageQueue p self = (p, q)"
    by (simp add: GetThreadScopedMessageQueue_def q)
  with assms(1) f show ?thesis
    by (simp add: Log_def Enqueue_emplace_full)
qed

lemma not_queue_full:
  "\<not> queue_full p self \<Longrightarrow> sThreadScopedQueue p self = Some q \<Longrightarrow> \<not> IsFull q"
  by (simp add: queue_full_def)

lemma length_c_str_replicate: "c \<noteq> CHR 0x00 \<Longrightarrow> c_str (replicate n c) = replicate n c"
  by (simp add: c_str_def takeWhile_replicate)


section \<open>Properties of the drain pass\<close>

lemma level_roundtrip: "level_of_char (char_of_level l) = l"
proof -
  have "unat l mod 256 = unat l"
    using unsigned_less [of l, where 'a = nat] by simp
  then show ?thesis
    by (simp add: level_of_char_def char_of_level_def)
qed

lemma write_message_holds:
  assumes "holds_call m (formatter, logLevel, args)"
  shows "write_message os t m =
           Ok [Write (line_of os t (formatter, logLevel, args)), Write [CHR 0x0A], Flush]"
proof -
  from assms have f: "mFormatter m = Some formatter"
    and tk: "take (1 + length (encode args)) (mPayload m) = char_of_level logLevel # encode args"
    and ty: "CArgs formatter = map ctype_of args"
    and nt: "\<forall>a\<in>set args. null_terminated a"
    by (simp_all add: carries_def list_all_iff)
  define post where "post = drop (1 + length (encode args)) (mPayload m)"
  have "mPayload m = take (1 + length (encode args)) (mPayload m) @ post"
    by (simp add: post_def)
  with tk have pl: "mPayload m = [char_of_level logLevel] @ encode args @ post"
    by simp
  have ev: "Evaluate os formatter (mPayload m) (Suc 0) stream =
          Ok (stream @ render_template (mFormatString formatter) (map (render os) args))" for stream
    using Format_encoded [OF nt, of "[char_of_level logLevel]" 1 os post "mFormatString formatter" stream]
    by (simp add: Evaluate_def ty pl)
  have ne: "mPayload m \<noteq> []" and l0: "mPayload m ! 0 = char_of_level logLevel"
    by (simp_all add: pl)
  show ?thesis
    by (simp add: write_message_def Let_def ne l0 level_roundtrip f ev)
qed

lemma drain_empty:
  "IsEmpty q \<Longrightarrow> drain os now message q s = Some (Ok (q, s))"
  by (subst drain.simps) (simp add: Dequeue_def)

lemma drain_step:
  assumes "\<not> IsEmpty q"
    and "write_message os (now (snd s)) (mDataBuffer q ! unat (mHead q)) = Ok ios"
  shows "drain os now message q s =
           drain os now (mDataBuffer q ! unat (mHead q)) (q\<lparr>mHead := getNextIndex (mHead q)\<rparr>)
             (fst s @ ios, Suc (snd s))"
  using assms by (subst drain.simps) (simp add: Dequeue_def Let_def)

lemma drain_calls:
  "list_all2 holds_call (ring q) cs \<Longrightarrow> wf_queue q \<Longrightarrow>
   drain os now message q (out, k) =
     Some (Ok (q\<lparr>mHead := mTail q\<rparr>, out @ lines_from os now k cs, k + length cs))"
proof (induction cs arbitrary: q out k message)
  case Nil
  from Nil.prems(1) have "ring q = []" by simp
  with Nil.prems(2) have e: "IsEmpty q"
    using length_ring [of q] by (simp add: IsEmpty_count)
  then have "q\<lparr>mHead := mTail q\<rparr> = q"
    by (simp add: IsEmpty_iff)
  with e show ?case by (simp add: drain_empty)
next
  case (Cons c cs)
  from Cons.prems(1) obtain m ms where r: "ring q = m # ms" and m: "holds_call m c"
    and ms: "list_all2 holds_call ms cs"
    by (auto simp: list_all2_Cons2)
  from r Cons.prems(2) have ne: "\<not> IsEmpty q"
    using length_ring [of q] by (simp add: IsEmpty_count)
  then have ne': "mHead q \<noteq> mTail q" by (simp add: IsEmpty_iff)
  let ?q' = "q\<lparr>mHead := getNextIndex (mHead q)\<rparr>"
  from ring_dequeue [OF Cons.prems(2) ne'] r
  have wf': "wf_queue ?q'" and hd: "mDataBuffer q ! unat (mHead q) = m" and tl: "ring ?q' = ms"
    by simp_all
  obtain f l as where c: "c = (f, l, as)" by (cases c)
  have w: "write_message os (now (snd (out, k))) (mDataBuffer q ! unat (mHead q)) =
             Ok [Write (line_of os (now k) c), Write [CHR 0x0A], Flush]"
    using write_message_holds [of m f l as os "now k"] m by (simp add: hd c)
  have "drain os now message q (out, k) =
          drain os now m ?q' (out @ [Write (line_of os (now k) c), Write [CHR 0x0A], Flush], Suc k)"
    using drain_step [where s = "(out, k)" and now = now and os = os and message = message, OF ne w]
    by (simp add: hd)
  also have "\<dots> = Some (Ok (?q'\<lparr>mHead := mTail ?q'\<rparr>,
      (out @ [Write (line_of os (now k) c), Write [CHR 0x0A], Flush]) @ lines_from os now (Suc k) cs,
      Suc k + length cs))"
    using ms wf' by (intro Cons.IH) (simp_all add: tl)
  finally show ?case by simp
qed

lemma lines_from_append:
  "lines_from os now k (xs @ ys) = lines_from os now k xs @ lines_from os now (k + length xs) ys"
  by (induction xs arbitrary: k) simp_all

lemma ForEachQueue_drain:
  "distinct tids \<Longrightarrow>
   \<forall>t\<in>set tids. \<exists>q. queues t = Some q \<and> wf_queue q \<and> list_all2 holds_call (ring q) (calls t) \<Longrightarrow>
   \<exists>queues'. ForEachQueue (drain os now message) tids queues (out, k) =
       Some (Ok (queues', out @ lines_from os now k (concat (map calls tids)),
                 k + length (concat (map calls tids)))) \<and>
     (\<forall>t. queues' t = (if t \<in> set tids then map_option (\<lambda>q. q\<lparr>mHead := mTail q\<rparr>) (queues t)
                         else queues t))"
proof (induction tids arbitrary: queues out k)
  case Nil
  then show ?case by simp
next
  case (Cons t tids)
  from Cons.prems(2) obtain q where q: "queues t = Some q" "wf_queue q"
    "list_all2 holds_call (ring q) (calls t)"
    by auto
  let ?q' = "q\<lparr>mHead := mTail q\<rparr>"
  let ?queues = "queues(t \<mapsto> ?q')"
  let ?out = "out @ lines_from os now k (calls t)"
  let ?k = "k + length (calls t)"
  have d: "drain os now message q (out, k) = Some (Ok (?q', ?out, ?k))"
    using q(3) q(2) by (rule drain_calls)
  from Cons.prems(1) have dist: "distinct tids" and notin: "t \<notin> set tids" by simp_all
  have rest: "\<forall>u\<in>set tids. \<exists>q. ?queues u = Some q \<and> wf_queue q \<and>
      list_all2 holds_call (ring q) (calls u)"
    using Cons.prems(2) notin by auto
  from Cons.IH [OF dist rest, of ?out ?k]
  obtain queues' where r: "ForEachQueue (drain os now message) tids ?queues (?out, ?k) =
       Some (Ok (queues', ?out @ lines_from os now ?k (concat (map calls tids)),
                 ?k + length (concat (map calls tids))))"
    and qs: "\<forall>u. queues' u = (if u \<in> set tids then map_option (\<lambda>q. q\<lparr>mHead := mTail q\<rparr>) (?queues u)
                         else ?queues u)"
    by blast
  have "ForEachQueue (drain os now message) (t # tids) queues (out, k) =
       Some (Ok (queues', out @ lines_from os now k (concat (map calls (t # tids))),
                 k + length (concat (map calls (t # tids)))))"
    using r by (simp add: q(1) d lines_from_append add.assoc)
  moreover have "\<forall>u. queues' u =
      (if u \<in> set (t # tids) then map_option (\<lambda>q. q\<lparr>mHead := mTail q\<rparr>) (queues u)
       else queues u)"
    using qs notin q(1) by auto
  ultimately show ?case by blast
qed

lemma is_digit_digit: "d < 10 \<Longrightarrow> is_digit (digit d)"
  by (simp add: is_digit_def digit_def)

lemma show_nat_2: "10 \<le> n \<Longrightarrow> n < 100 \<Longrightarrow> show_nat n = [digit (n div 10), digit (n mod 10)]"
  by (simp add: show_nat_step show_nat_digit)

lemma show_nat_3:
  "100 \<le> n \<Longrightarrow> n < 1000 \<Longrightarrow>
   show_nat n = [digit (n div 10 div 10), digit (n div 10 mod 10), digit (n mod 10)]"
proof -
  assume "100 \<le> n" "n < 1000"
  then have "10 \<le> n" "10 \<le> n div 10" "n div 10 < 100" by arith+
  then show ?thesis
    by (simp add: show_nat_step [of n] show_nat_2)
qed

lemma show_nat_4:
  "1000 \<le> n \<Longrightarrow> n < 10000 \<Longrightarrow>
   show_nat n = [digit (n div 10 div 10 div 10), digit (n div 10 div 10 mod 10),
                 digit (n div 10 mod 10), digit (n mod 10)]"
proof -
  assume "1000 \<le> n" "n < 10000"
  then have "10 \<le> n" "100 \<le> n div 10" "n div 10 < 1000" by arith+
  then show ?thesis
    by (simp add: show_nat_step [of n] show_nat_3)
qed

lemma four_digits:
  assumes "1000 \<le> i" and "i \<le> 9999"
  shows "\<exists>a b c d. show_int i = [a, b, c, d] \<and> is_digit a \<and> is_digit b \<and> is_digit c \<and> is_digit d"
proof -
  let ?n = "nat i"
  from assms have n: "1000 \<le> ?n" "?n < 10000" by simp_all
  then have "?n div 10 div 10 div 10 < 10" by simp
  with assms show_nat_4 [OF n] show ?thesis
    by (simp add: show_int_def is_digit_digit)
qed

lemma two_digits:
  assumes "0 \<le> i" and "i \<le> 99"
  shows "\<exists>a b. pad2 i = [a, b] \<and> is_digit a \<and> is_digit b"
proof (cases "i < 10")
  case True
  with assms have "nat i < 10" by simp
  with True assms show ?thesis
    by (simp add: pad2_def show_int_def show_nat_digit is_digit_digit)
       (simp add: is_digit_def)
next
  case False
  with assms have n: "10 \<le> nat i" "nat i < 100" by simp_all
  then have "nat i div 10 < 10" by simp
  with False assms show_nat_2 [OF n] show ?thesis
    by (simp add: pad2_def show_int_def is_digit_digit)
qed

lemma put_time_form:
  assumes "valid_tm t"
  shows "timestamp_form (put_time t)"
proof -
  from assms obtain y1 y2 y3 y4 where y: "show_int (1900 + tm_year t) = [y1, y2, y3, y4]"
    "is_digit y1" "is_digit y2" "is_digit y3" "is_digit y4"
    using four_digits [of "1900 + tm_year t"] by (auto simp: valid_tm_def)
  from assms obtain m1 m2 where m: "pad2 (tm_mon t + 1) = [m1, m2]" "is_digit m1" "is_digit m2"
    using two_digits [of "tm_mon t + 1"] by (auto simp: valid_tm_def)
  from assms obtain d1 d2 where d: "pad2 (tm_mday t) = [d1, d2]" "is_digit d1" "is_digit d2"
    using two_digits [of "tm_mday t"] by (auto simp: valid_tm_def)
  from assms obtain h1 h2 where h: "pad2 (tm_hour t) = [h1, h2]" "is_digit h1" "is_digit h2"
    using two_digits [of "tm_hour t"] by (auto simp: valid_tm_def)
  from assms obtain n1 n2 where n: "pad2 (tm_min t) = [n1, n2]" "is_digit n1" "is_digit n2"
    using two_digits [of "tm_min t"] by (auto simp: valid_tm_def)
  from assms obtain s1 s2 where s: "pad2 (tm_sec t) = [s1, s2]" "is_digit s1" "is_digit s2"
    using two_digits [of "tm_sec t"] by (auto simp: valid_tm_def)
  have "put_time t = [y1, y2, y3, y4, CHR ''-'', m1, m2, CHR ''-'', d1, d2, CHR '' '',
                      h1, h2, CHR '':'', n1, n2, CHR '':'', s1, s2]"
    by (simp add: put_time_def y m d h n s)
  with y m d h n s show ?thesis
    by simp
qed


lemma ring_drained: "ring (q\<lparr>mHead := mTail q\<rparr>) = []"
  by (simp add: ring_def count_def QueueSize_pos)

lemma FAST_LOG_formatter:
  "FAST_LOG pretty_function p self logLevel formatString args =
     Log p self (LogFormatter_instance (pretty_function @ '':'' @ formatString)
                   (map ctype_of args)) logLevel args"
  by (simp add: FAST_LOG_def WriteLog_def makeStringLiteral_def)



lemma strstr_after_call_site:
  "strstr site ''{}'' = None \<Longrightarrow>
   strstr (site @ CHR '':'' # t) ''{}'' = map_option (\<lambda>n. length site + 1 + n) (strstr t ''{}'')"
proof (induction site)
  case Nil
  show ?case
    by (cases "strstr t ''{}''") simp_all
next
  case (Cons c cs)
  from Cons.prems have no: "take 2 (c # cs) \<noteq> ''{}''" and rest: "strstr cs ''{}'' = None"
    by (simp_all split: if_splits)
  from no have "take 2 ((c # cs) @ CHR '':'' # t) \<noteq> ''{}''"
    by (cases cs) simp_all
  with Cons.IH [OF rest] show ?case
    by (cases "strstr t ''{}''") simp_all
qed

lemma render_template_call_site:
  assumes "strstr site ''{}'' = None"
  shows "render_template (site @ '':'' @ t) rs = site @ '':'' @ render_template t rs"
proof (cases rs)
  case Nil
  then show ?thesis by simp
next
  case (Cons r rs')
  show ?thesis
  proof (cases "strstr t ''{}''")
    case None
    with assms Cons show ?thesis
      by (simp add: strstr_after_call_site)
  next
    case (Some n)
    let ?k = "length site + 1 + n"
    have tk: "take ?k (site @ CHR '':'' # t) = site @ CHR '':'' # take n t"
      by simp
    have dr: "drop (?k + 2) (site @ CHR '':'' # t) = drop (n + 2) t"
      by (simp add: drop_Cons')
    have s: "strstr (site @ CHR '':'' # t) ''{}'' = Some ?k"
      using assms Some by (simp add: strstr_after_call_site)
    have L: "render_template (site @ CHR '':'' # t) (r # rs') =
        take ?k (site @ CHR '':'' # t) @ r @
        render_template (drop (?k + 2) (site @ CHR '':'' # t)) rs'"
      by (simp only: render_template.simps s option.case)
    have R: "render_template t (r # rs') = take n t @ r @ render_template (drop (n + 2) t) rs'"
      by (simp only: render_template.simps Some option.case)
    have "render_template (site @ CHR '':'' # t) (r # rs') =
          site @ CHR '':'' # render_template t (r # rs')"
      by (simp only: L R tk dr) simp
    then show ?thesis
      by (simp add: Cons del: render_template.simps)
  qed
qed


lemma logs_new: "logs process_new (\<lambda>_. [])"
  by (simp add: logs_def process_new_def FastLogger_new_def pending_def)

lemma Log_Ok_fits:
  assumes ok: "Log p self formatter logLevel args = Some (Ok p1)"
    and lvl: "mLogLevel (logger p) \<le> logLevel"
    and wf: "\<And>q. sThreadScopedQueue p self = Some q \<Longrightarrow> wf_MessageQueue q"
  shows "\<not> queue_full p self \<and> 1 + length (encode args) \<le> PayloadSize"
proof (intro conjI)
  show nf: "\<not> queue_full p self"
    using ok Log_full [OF lvl, of self formatter args] by auto
  show "1 + length (encode args) \<le> PayloadSize"
  proof (rule ccontr)
    assume "\<not> 1 + length (encode args) \<le> PayloadSize"
    then have over: "PayloadSize < 1 + length (encode args)" by simp
    have "\<And>q. sThreadScopedQueue p self = Some q \<Longrightarrow> wf_MessageQueue q \<and> \<not> IsFull q"
      using wf nf by (auto dest: not_queue_full)
    with lvl have "Log p self formatter logLevel args = Some (Undefined OutOfBoundsWrite)"
      using over by (rule Log_overflow)
    with ok show False by simp
  qed
qed

lemma Log_preserves_logs:
  assumes inv: "logs p calls"
    and ok: "Log p self formatter logLevel args = Some (Ok p1)"
    and ty: "CArgs formatter = map ctype_of args"
    and nt: "list_all null_terminated args"
  shows "logs p1 (if mLogLevel (logger p) \<le> logLevel
                  then calls(self := calls self @ [(formatter, logLevel, args)]) else calls)"
proof (cases "mLogLevel (logger p) \<le> logLevel")
  case False
  then have "Log p self formatter logLevel args = Some (Ok p)"
    by (simp add: Log_below)
  with ok False inv show ?thesis by simp
next
  case True
  let ?tids = "mThreadScopedQueues (mThreadScopedQueueManager (logger p))"
  from inv have dist: "distinct ?tids"
    and reg: "\<forall>t\<in>set ?tids. sThreadScopedQueue p t \<noteq> None"
    and wfs: "\<And>t q. sThreadScopedQueue p t = Some q \<Longrightarrow> wf_MessageQueue q"
    and held: "\<And>t. list_all2 holds_call (pending p t) (calls t)"
    by (simp_all add: logs_def)
  from Log_Ok_fits [OF ok True wfs] have nf: "\<not> queue_full p self"
    and fits: "1 + length (encode args) \<le> PayloadSize"
    by simp_all
  have wf: "\<And>q. sThreadScopedQueue p self = Some q \<Longrightarrow> wf_MessageQueue q \<and> \<not> IsFull q"
    using wfs nf by (auto dest: not_queue_full)
  from Log_enqueues [where p = p and self = self and logLevel = logLevel and args = args
      and formatter = formatter, OF True wf fits] ok
  obtain q' m where s1: "sThreadScopedQueue p1 = (sThreadScopedQueue p)(self \<mapsto> q')"
    and wq': "wf_MessageQueue q'" and r: "ring q' = pending p self @ [m]"
    and c: "carries m formatter logLevel args"
    and tids1: "mThreadScopedQueues (mThreadScopedQueueManager (logger p1)) =
             (case sThreadScopedQueue p self of
                None \<Rightarrow> List.insert self ?tids | Some _ \<Rightarrow> ?tids)"
    by auto
  let ?calls = "calls(self := calls self @ [(formatter, logLevel, args)])"
  have d1: "distinct (mThreadScopedQueues (mThreadScopedQueueManager (logger p1)))"
    using dist by (simp add: tids1 split: option.splits)
  have r1: "\<forall>t\<in>set (mThreadScopedQueues (mThreadScopedQueueManager (logger p1))).
              sThreadScopedQueue p1 t \<noteq> None"
    using reg by (auto simp: tids1 s1 split: option.splits)
  have w1: "\<forall>t q. sThreadScopedQueue p1 t = Some q \<longrightarrow> wf_MessageQueue q"
    using wfs wq' by (auto simp: s1)
  have hm: "holds_call m (formatter, logLevel, args)"
    using c ty nt by simp
  have h1: "list_all2 holds_call (pending p1 t) (?calls t)" for t
  proof (cases "t = self")
    case True
    have "list_all2 holds_call (pending p self @ [m]) (calls self @ [(formatter, logLevel, args)])"
      using held [of self] hm by (intro list_all2_appendI) simp_all
    with True show ?thesis
      by (simp add: pending_def s1 r)
  next
    case False
    with held [of t] show ?thesis
      by (simp add: pending_def s1)
  qed
  from d1 r1 w1 h1 True show ?thesis
    by (simp add: logs_def)
qed

lemma wf_MessageQueue_drained:
  "wf_MessageQueue q \<Longrightarrow> wf_MessageQueue (q\<lparr>mHead := mTail q\<rparr>)"
  by (simp add: wf_MessageQueue_def wf_queue_def)

lemma drain_preserves_logs:
  assumes inv: "logs p calls"
  shows "\<exists>p'. ConsumeAndWriteLogs os now message p = Some (Ok p') \<and>
           mFileStream (logger p') =
             mFileStream (logger p) @
             lines_from os now 0
               (concat (map calls (mThreadScopedQueues (mThreadScopedQueueManager (logger p))))) \<and>
           logs p' (\<lambda>t. if t \<in> set (mThreadScopedQueues (mThreadScopedQueueManager (logger p)))
                         then [] else calls t)"
proof -
  let ?tids = "mThreadScopedQueues (mThreadScopedQueueManager (logger p))"
  let ?cs = "concat (map calls ?tids)"
  from inv have dist: "distinct ?tids"
    and reg: "\<forall>t\<in>set ?tids. sThreadScopedQueue p t \<noteq> None"
    and wfs: "\<And>t q. sThreadScopedQueue p t = Some q \<Longrightarrow> wf_MessageQueue q"
    and held: "\<And>t. list_all2 holds_call (pending p t) (calls t)"
    by (simp_all add: logs_def)
  have qs: "\<forall>t\<in>set ?tids. \<exists>q. sThreadScopedQueue p t = Some q \<and> wf_queue q \<and>
             list_all2 holds_call (ring q) (calls t)"
  proof
    fix t assume "t \<in> set ?tids"
    with reg obtain q where q: "sThreadScopedQueue p t = Some q" by auto
    from wfs [OF q] have "wf_queue q" by (simp add: wf_MessageQueue_def)
    moreover from held [of t] q have "list_all2 holds_call (ring q) (calls t)"
      by (simp add: pending_def)
    ultimately show "\<exists>q. sThreadScopedQueue p t = Some q \<and> wf_queue q \<and>
             list_all2 holds_call (ring q) (calls t)"
      using q by blast
  qed
  from ForEachQueue_drain [OF dist qs, of os now message "mFileStream (logger p)" 0]
  obtain queues' where f: "ForEachQueue (drain os now message) ?tids (sThreadScopedQueue p)
        (mFileStream (logger p), 0) =
       Some (Ok (queues', mFileStream (logger p) @ lines_from os now 0 ?cs, 0 + length ?cs))"
    and q': "\<And>t. queues' t = (if t \<in> set ?tids
                 then map_option (\<lambda>q. q\<lparr>mHead := mTail q\<rparr>) (sThreadScopedQueue p t)
                 else sThreadScopedQueue p t)"
    by blast
  let ?p' = "p\<lparr>sThreadScopedQueue := queues',
               logger := (logger p)\<lparr>mFileStream := mFileStream (logger p) @ lines_from os now 0 ?cs\<rparr>\<rparr>"
  let ?calls = "\<lambda>t. if t \<in> set ?tids then [] else calls t"
  have c: "ConsumeAndWriteLogs os now message p = Some (Ok ?p')"
    by (simp add: ConsumeAndWriteLogs_def f)
  have r1: "\<forall>t\<in>set ?tids. queues' t \<noteq> None"
    using reg by (auto simp: q')
  have w1: "\<forall>t q. queues' t = Some q \<longrightarrow> wf_MessageQueue q"
    using wfs by (auto simp: q' wf_MessageQueue_drained split: if_splits)
  have h1: "list_all2 holds_call (pending ?p' t) (?calls t)" for t
  proof (cases "t \<in> set ?tids")
    case True
    with reg obtain q where "sThreadScopedQueue p t = Some q" by auto
    with True show ?thesis
      by (simp add: pending_def q' ring_drained)
  next
    case False
    with held [of t] show ?thesis
      by (simp add: pending_def q')
  qed
  have "logs ?p' ?calls"
    using dist r1 w1 h1 by (simp add: logs_def)
  with c show ?thesis
    by (intro exI [of _ ?p']) simp
qed

lemma c_str_call_site:
  "CHR 0x00 \<notin> set site \<Longrightarrow> c_str (site @ '':'' @ t) = site @ '':'' @ c_str t"
proof -
  assume "CHR 0x00 \<notin> set site"
  then have "\<And>x. x \<in> set (site @ '':'') \<Longrightarrow> x \<noteq> CHR 0x00" by auto
  then have "takeWhile (\<lambda>c. c \<noteq> CHR 0x00) ((site @ '':'') @ t) =
             (site @ '':'') @ takeWhile (\<lambda>c. c \<noteq> CHR 0x00) t"
    by (rule takeWhile_append2)
  then show ?thesis by (simp add: c_str_def)
qed

section \<open>Claims about the ring buffer\<close>

text \<open>
  Claim C9. \<open>Dequeue\<close> returns false exactly when the queue is empty, that is when
  \<open>head = tail\<close>; and when it returns false the queue (head, tail and every slot) and the
  caller's output slot are what they were.
\<close>

theorem Dequeue_false_iff_empty:
  "(fst (Dequeue q data) = False \<longleftrightarrow> IsEmpty q) \<and>
   (IsEmpty q \<longleftrightarrow> mHead q = mTail q) \<and>
   (fst (Dequeue q data) = False \<longrightarrow> Dequeue q data = (False, data, q))"
  by (simp add: Dequeue_def Let_def IsEmpty_iff)

theorem Dequeue_false_iff_empty_witness:
  "fst (Dequeue \<lparr>mDataBuffer = replicate QueueSize (0::nat), mHead = 5, mTail = 5\<rparr> 7) = False \<and>
   Dequeue \<lparr>mDataBuffer = replicate QueueSize (0::nat), mHead = 5, mTail = 5\<rparr> 7 =
     (False, 7, \<lparr>mDataBuffer = replicate QueueSize (0::nat), mHead = 5, mTail = 5\<rparr>)"
  using Dequeue_false_iff_empty [of "\<lparr>mDataBuffer = replicate QueueSize (0::nat), mHead = 5, mTail = 5\<rparr>" 7]
  by (simp add: Dequeue_def IsEmpty_def)

text \<open>
  Claim C10 as stated, that every \<open>Enqueue\<close> on a queue that is not full writes exactly
  the slot at the old tail index, fails for the emplacing overload, whose constructor runs
  on the slot: the constructor of a \<open>LogMessage\<close> for a \<open>std::string\<close> of 1024
  characters writes beyond the slot.
\<close>

theorem Enqueue_emplace_overrun_counterexample:
  "\<not> IsFull ThreadScopedQueue_new \<and>
   Enqueue_emplace ThreadScopedQueue_new
     (LogMessage_new \<lparr>mFormatString = ''main:{}'', CArgs = [T_string]\<rparr> ERROR
        [A_string (replicate 1024 (CHR ''b''))]) =
     Some (Undefined OutOfBoundsWrite)"
proof -
  let ?raw = "mDataBuffer ThreadScopedQueue_new ! unat (mTail ThreadScopedQueue_new)"
  have "?raw = zero_LogMessage"
    by (simp add: ThreadScopedQueue_new_def SPSCQueue_new_def QueueSize_def)
  then have len: "length (mPayload ?raw) = PayloadSize"
    by (simp add: zero_LogMessage_def)
  have over: "\<not> 1 + length (encode [A_string (replicate 1024 (CHR ''b''))]) \<le> PayloadSize"
    by (simp add: length_encode_string PayloadSize_def)
  show ?thesis
    using over
    by (simp add: ThreadScopedQueue_new_not_full
        Enqueue_emplace_not_full [OF ThreadScopedQueue_new_not_full] LogMessage_new_eq [OF len])
qed

text \<open>
  Claim C10, as the code has it. On a queue that is not full both overloads of
  \<open>Enqueue\<close> return: the copying one stores its argument in the slot at the old tail index,
  the emplacing one stores there what the constructor makes of the slot, provided the
  constructor stays inside the slot, and otherwise has the constructor's undefined
  behaviour. In both the slot at the old tail index is the only slot written, tail moves to
  \<open>(tail + 1) & (QueueSize - 1)\<close> and head stays. On a full queue neither returns.
  \<open>Dequeue\<close>, on any queue, leaves every slot and tail alone; it moves head by one modulo
  the capacity when it returns true and not at all when it returns false.
\<close>

theorem Enqueue_Dequeue_frame:
  "(\<not> IsFull q \<longrightarrow>
      Enqueue q x =
        Some (q\<lparr>mDataBuffer := (mDataBuffer q)[unat (mTail q) := x],
                mTail := (mTail q + 1) AND (of_nat QueueSize - 1)\<rparr>) \<and>
      Enqueue_emplace q construct =
        Some (case construct (mDataBuffer q ! unat (mTail q)) of
                Ok obj \<Rightarrow>
                  Ok (q\<lparr>mDataBuffer := (mDataBuffer q)[unat (mTail q) := obj],
                        mTail := (mTail q + 1) AND (of_nat QueueSize - 1)\<rparr>)
              | Undefined e \<Rightarrow> Undefined e)) \<and>
   (IsFull q \<longrightarrow> Enqueue q x = None \<and> Enqueue_emplace q construct = None) \<and>
   (wf_queue q \<longrightarrow>
      unat (mTail q) < length (mDataBuffer q) \<and>
      (mDataBuffer q)[unat (mTail q) := x] ! unat (mTail q) = x) \<and>
   (\<forall>i. i \<noteq> unat (mTail q) \<longrightarrow>
      (mDataBuffer q)[unat (mTail q) := x] ! i = mDataBuffer q ! i) \<and>
   (case Dequeue q data of (ok, _, q') \<Rightarrow>
      mDataBuffer q' = mDataBuffer q \<and> mTail q' = mTail q \<and>
      (ok \<longleftrightarrow> \<not> IsEmpty q) \<and>
      mHead q' = (if ok then (mHead q + 1) AND (of_nat QueueSize - 1) else mHead q) \<and>
      (ok \<longrightarrow> unat (mHead q') = (unat (mHead q) + 1) mod QueueSize))"
proof (intro conjI impI allI)
  assume nf: "\<not> IsFull q"
  then have "getNextIndex (mTail q) \<noteq> mHead q" by (simp add: IsFull_def)
  then show "Enqueue q x =
        Some (q\<lparr>mDataBuffer := (mDataBuffer q)[unat (mTail q) := x],
                mTail := (mTail q + 1) AND (of_nat QueueSize - 1)\<rparr>)"
    by (simp add: Enqueue_Some getNextIndex_def kIndexMask_def)
  from nf show "Enqueue_emplace q construct =
        Some (case construct (mDataBuffer q ! unat (mTail q)) of
                Ok obj \<Rightarrow>
                  Ok (q\<lparr>mDataBuffer := (mDataBuffer q)[unat (mTail q) := obj],
                        mTail := (mTail q + 1) AND (of_nat QueueSize - 1)\<rparr>)
              | Undefined e \<Rightarrow> Undefined e)"
    by (cases "construct (mDataBuffer q ! unat (mTail q))")
       (simp_all add: Enqueue_emplace_eq getNextIndex_def kIndexMask_def)
next
  assume "IsFull q"
  then show "Enqueue q x = None" and "Enqueue_emplace q construct = None"
    by (simp_all add: Enqueue_full Enqueue_emplace_full)
next
  assume "wf_queue q"
  then show t: "unat (mTail q) < length (mDataBuffer q)"
    by (simp add: wf_queue_def)
  then show "(mDataBuffer q)[unat (mTail q) := x] ! unat (mTail q) = x"
    by simp
next
  fix i assume "i \<noteq> unat (mTail q)"
  then show "(mDataBuffer q)[unat (mTail q) := x] ! i = mDataBuffer q ! i"
    by simp
next
  show "case Dequeue q data of (ok, _, q') \<Rightarrow>
      mDataBuffer q' = mDataBuffer q \<and> mTail q' = mTail q \<and>
      (ok \<longleftrightarrow> \<not> IsEmpty q) \<and>
      mHead q' = (if ok then (mHead q + 1) AND (of_nat QueueSize - 1) else mHead q) \<and>
      (ok \<longrightarrow> unat (mHead q') = (unat (mHead q) + 1) mod QueueSize)"
    using unat_getNextIndex [of "mHead q"]
    by (simp add: Dequeue_def Let_def getNextIndex_def kIndexMask_def)
qed

theorem Enqueue_Dequeue_frame_witness:
  "\<not> IsFull \<lparr>mDataBuffer = replicate QueueSize (0::nat), mHead = 1, mTail = 2\<rparr> \<and>
   wf_queue \<lparr>mDataBuffer = replicate QueueSize (0::nat), mHead = 1, mTail = 2\<rparr> \<and>
   Enqueue \<lparr>mDataBuffer = replicate QueueSize (0::nat), mHead = 1, mTail = 2\<rparr> 9 =
     Some \<lparr>mDataBuffer = (replicate QueueSize 0)[2 := 9], mHead = 1, mTail = 3\<rparr> \<and>
   Enqueue_emplace \<lparr>mDataBuffer = replicate QueueSize (0::nat), mHead = 1, mTail = 2\<rparr>
       (\<lambda>old. Ok (old + 9)) =
     Some (Ok \<lparr>mDataBuffer = (replicate QueueSize 0)[2 := 9], mHead = 1, mTail = 3\<rparr>) \<and>
   (replicate QueueSize (0::nat))[2 := 9] ! 2 = 9 \<and>
   IsFull \<lparr>mDataBuffer = replicate QueueSize (0::nat), mHead = 3, mTail = 2\<rparr> \<and>
   Enqueue \<lparr>mDataBuffer = replicate QueueSize (0::nat), mHead = 3, mTail = 2\<rparr> 9 = None \<and>
   Dequeue \<lparr>mDataBuffer = replicate QueueSize (0::nat), mHead = 3, mTail = 2\<rparr> 7 =
     (True, 0, \<lparr>mDataBuffer = replicate QueueSize (0::nat), mHead = 4, mTail = 2\<rparr>)"
proof -
  let ?q = "\<lparr>mDataBuffer = replicate QueueSize (0::nat), mHead = 1, mTail = 2\<rparr>"
  let ?f = "\<lparr>mDataBuffer = replicate QueueSize (0::nat), mHead = 3, mTail = 2\<rparr>"
  have wf: "wf_queue ?q"
    by (simp add: wf_queue_def QueueSize_def)
  have nf: "\<not> IsFull ?q"
    by (simp add: IsFull_def getNextIndex_def kIndexMask_def QueueSize_def)
  have full: "IsFull ?f"
    by (simp add: IsFull_def getNextIndex_def kIndexMask_def QueueSize_def)
  have d: "Dequeue ?f 7 = (True, 0, \<lparr>mDataBuffer = replicate QueueSize (0::nat), mHead = 4, mTail = 2\<rparr>)"
    by (simp add: Dequeue_def IsEmpty_def Let_def getNextIndex_def kIndexMask_def QueueSize_def)
  from Enqueue_Dequeue_frame [of ?q 9 "\<lambda>old. Ok (old + 9)" 7] wf nf
  have a: "Enqueue ?q 9 = Some \<lparr>mDataBuffer = (replicate QueueSize 0)[2 := 9], mHead = 1, mTail = 3\<rparr>"
    and b: "Enqueue_emplace ?q (\<lambda>old. Ok (old + 9)) =
          Some (Ok \<lparr>mDataBuffer = (replicate QueueSize 0)[2 := 9], mHead = 1, mTail = 3\<rparr>)"
    and c: "(replicate QueueSize (0::nat))[2 := 9] ! 2 = 9"
    by (simp_all add: QueueSize_def)
  from Enqueue_Dequeue_frame [of ?f 9 "\<lambda>old. Ok (old + 9)" 7] full
  have e: "Enqueue ?f 9 = None"
    by simp
  from wf nf a b c full e d show ?thesis by simp
qed

text \<open>
  Claim C4. In every state a queue of 1024 slots reaches from a new queue by calls that return:
  it is empty iff \<open>head = tail\<close>, which is when no message is outstanding; it is full iff
  \<open>(tail + 1) mod QueueSize = head\<close>, which is when 1023 messages are outstanding and when
  \<open>Enqueue\<close> does not return; it never holds more than 1023 messages, so one slot stays
  unused; and 1023 is reached: any 1023 values are enqueued one after the other into a new
  queue, after which the queue holds exactly them and is full.
\<close>

theorem ring_capacity:
  assumes raw: "length raw = QueueSize"
    and run: "exec ops (SPSCQueue_new raw, d) = Some (q, d')"
  shows "QueueSize = 1024 \<and>
         length (mDataBuffer q) = QueueSize \<and>
         (IsEmpty q \<longleftrightarrow> mHead q = mTail q) \<and>
         (IsEmpty q \<longleftrightarrow> ring q = []) \<and>
         (IsFull q \<longleftrightarrow> (unat (mTail q) + 1) mod QueueSize = unat (mHead q)) \<and>
         (IsFull q \<longleftrightarrow> length (ring q) = QueueSize - 1) \<and>
         (\<forall>x. Enqueue q x = None \<longleftrightarrow> IsFull q) \<and>
         length (ring q) \<le> 1023 \<and>
         (\<forall>xs. length xs = 1023 \<longrightarrow>
            (\<exists>q1. exec (map Enq xs) (SPSCQueue_new raw, d) = Some (q1, d) \<and>
                  ring q1 = xs \<and> IsFull q1))"
proof -
  have wf: "wf_queue q"
    using wf_new [OF raw] run by (rule exec_wf)
  have empty: "IsEmpty q \<longleftrightarrow> ring q = []"
    using IsEmpty_count [OF wf] length_ring [of q] by auto
  have full1: "IsFull q \<longleftrightarrow> (unat (mTail q) + 1) mod QueueSize = unat (mHead q)"
    by (simp add: IsFull_def word_unat_eq_iff unat_getNextIndex)
  have full2: "IsFull q \<longleftrightarrow> length (ring q) = QueueSize - 1"
    by (simp add: IsFull_count [OF wf] length_ring)
  have bound: "length (ring q) \<le> 1023"
    using count_lt [of q] by (simp add: length_ring QueueSize_def)
  have attain: "\<exists>q1. exec (map Enq xs) (SPSCQueue_new raw, d) = Some (q1, d) \<and>
                  ring q1 = xs \<and> IsFull q1" if "length xs = 1023" for xs
  proof -
    from that have "length xs < QueueSize" by (simp add: QueueSize_def)
    from exec_enq_all [OF raw this, of d] obtain q1 where
      q1: "exec (map Enq xs) (SPSCQueue_new raw, d) = Some (q1, d)" "wf_queue q1" "ring q1 = xs"
      by blast
    from q1(3) that have "length (ring q1) = QueueSize - 1" by (simp add: QueueSize_def)
    then have "IsFull q1" by (simp add: IsFull_count [OF q1(2)] length_ring)
    with q1 show ?thesis by blast
  qed
  from wf have len: "length (mDataBuffer q) = QueueSize" by (simp add: wf_queue_def)
  show ?thesis
    using empty full1 full2 bound attain len
    by (simp add: IsEmpty_iff Enqueue_None IsFull_def QueueSize_def)
qed

theorem ring_capacity_witness:
  "length (replicate QueueSize (0::nat)) = QueueSize \<and>
   exec [Enq 4, Enq 5, Deq] (SPSCQueue_new (replicate QueueSize (0::nat)), 0) =
     Some (\<lparr>mDataBuffer = (replicate QueueSize 0)[0 := 4, 1 := 5], mHead = 1, mTail = 2\<rparr>, 4) \<and>
   length (ring \<lparr>mDataBuffer = (replicate QueueSize (0::nat))[0 := 4, 1 := 5], mHead = 1, mTail = 2\<rparr>) \<le> 1023 \<and>
   \<not> IsFull \<lparr>mDataBuffer = (replicate QueueSize (0::nat))[0 := 4, 1 := 5], mHead = 1, mTail = 2\<rparr>"
proof -
  let ?raw = "replicate QueueSize (0::nat)"
  let ?q = "\<lparr>mDataBuffer = ?raw[0 := 4, 1 := 5], mHead = 1, mTail = 2\<rparr>"
  have raw: "length ?raw = QueueSize" by simp
  have n0: "getNextIndex 0 = 1" and n1: "getNextIndex 1 = 2"
    by (simp_all add: getNextIndex_def kIndexMask_def QueueSize_def)
  have e1: "Enqueue (SPSCQueue_new ?raw) 4 = Some \<lparr>mDataBuffer = ?raw[0 := 4], mHead = 0, mTail = 1\<rparr>"
    by (subst Enqueue_Some) (simp_all add: SPSCQueue_new_def n0)
  have e2: "Enqueue \<lparr>mDataBuffer = ?raw[0 := 4], mHead = 0, mTail = 1\<rparr> 5 =
            Some \<lparr>mDataBuffer = ?raw[0 := 4, 1 := 5], mHead = 0, mTail = 2\<rparr>"
    by (subst Enqueue_Some) (simp_all add: n1)
  have d: "Dequeue \<lparr>mDataBuffer = ?raw[0 := 4, 1 := 5], mHead = 0, mTail = 2\<rparr> 0 = (True, 4, ?q)"
    by (simp add: Dequeue_def IsEmpty_def Let_def n0 QueueSize_def)
  have run: "exec [Enq 4, Enq 5, Deq] (SPSCQueue_new ?raw, 0) = Some (?q, 4)"
    using d by (simp add: e1 e2)
  have nf: "\<not> IsFull ?q"
    by (simp add: IsFull_def getNextIndex_def kIndexMask_def QueueSize_def)
  from ring_capacity [OF raw run] raw run nf show ?thesis by simp
qed

section \<open>Claims about interleaved use\<close>

text \<open>
  Claim C1. For every schedule of the steps of one producer and one consumer on a new
  queue: the values passed to \<open>Enqueue\<close> are, in order, the values \<open>Dequeue\<close> has
  returned, then the values outstanding in the ring, then the value of the call of
  \<open>Enqueue\<close> in progress if there is one. So the values dequeued are an initial segment of
  the values enqueued, in the same order, none twice and none invented, and they are all of
  them whenever the queue is empty and no call of \<open>Enqueue\<close> is in progress. The slot the
  producer is about to write is never the slot the consumer is about to copy.
\<close>

theorem spsc_fifo:
  assumes "length raw = QueueSize"
  shows "let s = run schedule (system_new raw) in
           enqueued s = dequeued s @ ring (queue s) @ in_flight (queue s) (producer s) \<and>
           dequeued s = take (length (dequeued s)) (enqueued s) \<and>
           (IsEmpty (queue s) \<and> producer s = P_idle \<longrightarrow> dequeued s = enqueued s) \<and>
           (\<forall>w r. producer_slot (producer s) = Some w \<and> consumer_slot (consumer s) = Some r
                  \<longrightarrow> w \<noteq> r)"
proof -
  define s where "s = run schedule (system_new raw)"
  have inv: "system_inv s"
    unfolding s_def using inv_new [OF assms] by (rule inv_run)
  then have wf: "wf_queue (queue s)"
    and hist: "enqueued s = dequeued s @ ring (queue s) @ in_flight (queue s) (producer s)"
    by (simp_all add: system_inv_def)
  from hist have prefix: "dequeued s = take (length (dequeued s)) (enqueued s)"
    by simp
  have drained: "dequeued s = enqueued s" if "IsEmpty (queue s)" "producer s = P_idle"
  proof -
    from that(1) have "ring (queue s) = []"
      using IsEmpty_count [OF wf] length_ring [of "queue s"] by simp
    with hist that(2) show ?thesis by simp
  qed
  have apart: "w \<noteq> r"
    if "producer_slot (producer s) = Some w" "consumer_slot (consumer s) = Some r" for w r
  proof -
    from that(1) obtain n x where p: "producer s = P_write w n x"
      by (cases "producer s") simp_all
    from that(2) have c: "consumer s = C_copy r"
      by (cases "consumer s") simp_all
    from inv p c show ?thesis by (auto simp: system_inv_def)
  qed
  from hist prefix drained apart show ?thesis
    unfolding s_def [symmetric] Let_def by blast
qed

theorem spsc_fifo_witness:
  "length (replicate QueueSize (0::nat)) = QueueSize \<and>
   (let s = run [CallEnqueue 7, CallDequeue, StepProducer, StepProducer, StepProducer,
                 CallEnqueue 8, CallDequeue, StepProducer, StepConsumer, StepProducer,
                 StepConsumer, StepProducer, StepConsumer]
              (system_new (replicate QueueSize (0::nat)))
    in enqueued s = [7, 8] \<and> dequeued s = [7] \<and> ring (queue s) = [8] \<and>
       producer s = P_idle \<and> consumer s = C_idle)"
proof -
  let ?sched = "[CallEnqueue 7, CallDequeue, StepProducer, StepProducer, StepProducer,
                 CallEnqueue 8, CallDequeue, StepProducer, StepConsumer, StepProducer,
                 StepConsumer, StepProducer, StepConsumer]"
  let ?raw = "replicate QueueSize (0::nat)"
  have len: "length ?raw = QueueSize" by simp
  have n0: "getNextIndex 0 = 1" and n1: "getNextIndex 1 = 2"
    by (simp_all add: getNextIndex_def kIndexMask_def QueueSize_def)
  have r: "run ?sched (system_new ?raw) =
     \<lparr>queue = \<lparr>mDataBuffer = ?raw[0 := 7, 1 := 8], mHead = 1, mTail = 2\<rparr>,
      producer = P_idle, consumer = C_idle, enqueued = [7, 8], dequeued = [7]\<rparr>"
    by (simp add: system_new_def SPSCQueue_new_def call_Enqueue_def step_producer_def
        call_Dequeue_def step_consumer_def IsEmpty_def Let_def n0 n1 QueueSize_def)
  from spsc_fifo [OF len, of ?sched] show ?thesis
    unfolding r by (simp add: Let_def)
qed

section \<open>Claims about the argument encoding\<close>

text \<open>
  Claim C3. For every pack of arguments of the supported types, the strings among them
  null-terminated, that \<open>CopyArgs\<close> copies into a payload without leaving it: each scalar
  is copied raw at the current offset and each string as its characters and one null
  character, the encodings packed one after the other from the starting offset; and the
  formatter of the same argument types, evaluated on that payload from that offset, writes
  the template with its placeholders replaced from the left by the default text of the
  successive arguments.
\<close>

theorem encode_decode_roundtrip:
  assumes copy: "CopyArgs buffer off args = Ok (buffer', off')"
    and off: "off \<le> length buffer"
    and strings: "\<forall>a\<in>set args. null_terminated a"
  shows "off' = off + length (concat (map arg_bytes args)) \<and>
         buffer' = take off buffer @ concat (map arg_bytes args) @ drop off' buffer \<and>
         Evaluate os \<lparr>mFormatString = template, CArgs = map ctype_of args\<rparr> buffer' off stream =
           Ok (stream @ render_template template (map (render os) args))"
proof -
  from copy off have fits: "off + length (encode args) \<le> length buffer"
    by (simp add: CopyArgs_eq split: if_splits)
  with copy off have o: "off' = off + length (encode args)"
    and b: "buffer' = take off buffer @ encode args @ drop off' buffer"
    by (auto simp: CopyArgs_eq)
  have "length (take off buffer) = off"
    using off by simp
  from Format_encoded [OF strings this, of os "drop off' buffer" template stream]
  have "Evaluate os \<lparr>mFormatString = template, CArgs = map ctype_of args\<rparr> buffer' off stream =
           Ok (stream @ render_template template (map (render os) args))"
    by (simp add: Evaluate_def b [symmetric])
  with o b show ?thesis by (simp add: encode_def)
qed

theorem encode_decode_roundtrip_witness:
  "CopyArgs (replicate 32 (CHR 0x00)) 1 [A_int32 1, A_cstr ''ab'', A_bool True, A_string ''hi''] =
     Ok (CHR 0x00 # [CHR 0x01, CHR 0x00, CHR 0x00, CHR 0x00] @ ''ab'' @ [CHR 0x00, CHR 0x01] @
           ''hi'' @ CHR 0x00 # replicate 20 (CHR 0x00), 12) \<and>
   1 \<le> length (replicate 32 (CHR 0x00)) \<and>
   null_terminated (A_int32 1) \<and> null_terminated (A_cstr ''ab'') \<and>
   null_terminated (A_bool True) \<and> null_terminated (A_string ''hi'') \<and>
   Evaluate \<lparr>show_float = \<lambda>_. [], show_double = \<lambda>_. []\<rparr>
     \<lparr>mFormatString = ''x={} y={} z={} w={}'',
      CArgs = [T_int32, T_cstr, T_bool, T_string]\<rparr>
     (CHR 0x00 # [CHR 0x01, CHR 0x00, CHR 0x00, CHR 0x00] @ ''ab'' @ [CHR 0x00, CHR 0x01] @
           ''hi'' @ CHR 0x00 # replicate 20 (CHR 0x00)) 1 [] =
     Ok ''x=1 y=ab z=1 w=hi''"
proof -
  let ?args = "[A_int32 1, A_cstr ''ab'', A_bool True, A_string ''hi'']"
  let ?b' = "CHR 0x00 # [CHR 0x01, CHR 0x00, CHR 0x00, CHR 0x00] @ ''ab'' @ [CHR 0x00, CHR 0x01] @
           ''hi'' @ CHR 0x00 # replicate 20 (CHR 0x00)"
  let ?os = "\<lparr>show_float = \<lambda>_. [], show_double = \<lambda>_. []\<rparr>"
  have enc: "encode ?args = [CHR 0x01, CHR 0x00, CHR 0x00, CHR 0x00] @ ''ab'' @ [CHR 0x00, CHR 0x01] @
           ''hi'' @ [CHR 0x00]"
    by (simp add: encode_def c_str_def le_bytes_numeral char_of_eq_iff)
  have copy: "CopyArgs (replicate 32 (CHR 0x00)) 1 ?args = Ok (?b', 12)"
    by (subst CopyArgs_eq) (simp_all add: enc)
  have len: "1 \<le> length (replicate 32 (CHR 0x00))" by simp
  have nt: "\<forall>a\<in>set ?args. null_terminated a" by simp
  have r: "map (render ?os) ?args = [''1'', ''ab'', ''1'', ''hi'']"
    by (simp add: show_int_def show_nat_digit digit_def c_str_def char_of_eq_iff)
  have sp: "render_template ''x={} y={} z={} w={}'' [''1'', ''ab'', ''1'', ''hi''] = ''x=1 y=ab z=1 w=hi''"
    by simp
  from encode_decode_roundtrip [OF copy len nt, of ?os "''x={} y={} z={} w={}''" "[]"]
  have "Evaluate ?os \<lparr>mFormatString = ''x={} y={} z={} w={}'', CArgs = map ctype_of ?args\<rparr> ?b' 1 [] =
     Ok ([] @ render_template ''x={} y={} z={} w={}'' (map (render ?os) ?args))"
    by blast
  then have "Evaluate ?os
     \<lparr>mFormatString = ''x={} y={} z={} w={}'', CArgs = [T_int32, T_cstr, T_bool, T_string]\<rparr> ?b' 1 [] =
     Ok ''x=1 y=ab z=1 w=hi''"
    unfolding r sp by simp
  with copy len show ?thesis by simp
qed

text \<open>
  Claim C7 at a \<open>std::string\<close> with an interior null character. \<open>CopyData\<close> copies
  \<open>size()\<close> characters of a \<open>std::string\<close>, the null character and what follows it
  included, where its \<open>const char*\<close> branch stops at the first null character (lemma
  \<open>CopyData_cstr_truncates\<close>); \<open>PrintData\<close> reads up to the first null character. For the
  arguments \<open>std::string("a\\0b", 3)\<close> and \<open>5\<close> the payload is not the payload of \<open>"a"\<close>
  and \<open>5\<close>, the integer lies two bytes further on, and the formatter reads the integer from
  inside the string: it writes 327778 where the truncated string gives 5.
\<close>

theorem interior_null_std_string:
  "CopyArgs (replicate 16 (CHR 0x00)) 1 [A_string [CHR ''a'', CHR 0x00, CHR ''b''], A_int32 5] =
     Ok (CHR 0x00 # [CHR ''a'', CHR 0x00, CHR ''b'', CHR 0x00, CHR 0x05, CHR 0x00, CHR 0x00, CHR 0x00] @
         replicate 7 (CHR 0x00), 9) \<and>
   CopyArgs (replicate 16 (CHR 0x00)) 1 [A_string [CHR ''a''], A_int32 5] =
     Ok (CHR 0x00 # [CHR ''a'', CHR 0x00, CHR 0x05, CHR 0x00, CHR 0x00, CHR 0x00] @
         replicate 9 (CHR 0x00), 7) \<and>
   Evaluate \<lparr>show_float = \<lambda>_. [], show_double = \<lambda>_. []\<rparr>
     \<lparr>mFormatString = ''{} {}'', CArgs = [T_string, T_int32]\<rparr>
     (CHR 0x00 # [CHR ''a'', CHR 0x00, CHR ''b'', CHR 0x00, CHR 0x05, CHR 0x00, CHR 0x00, CHR 0x00] @
      replicate 7 (CHR 0x00)) 1 [] = Ok ''a 327778'' \<and>
   Evaluate \<lparr>show_float = \<lambda>_. [], show_double = \<lambda>_. []\<rparr>
     \<lparr>mFormatString = ''{} {}'', CArgs = [T_string, T_int32]\<rparr>
     (CHR 0x00 # [CHR ''a'', CHR 0x00, CHR 0x05, CHR 0x00, CHR 0x00, CHR 0x00] @
      replicate 9 (CHR 0x00)) 1 [] = Ok ''a 5''"
proof -
  have e1: "encode [A_string [CHR ''a'', CHR 0x00, CHR ''b''], A_int32 5] =
      [CHR ''a'', CHR 0x00, CHR ''b'', CHR 0x00, CHR 0x05, CHR 0x00, CHR 0x00, CHR 0x00]"
    by (simp add: encode_def le_bytes_numeral char_of_eq_iff)
  have e2: "encode [A_string [CHR ''a''], A_int32 5] =
      [CHR ''a'', CHR 0x00, CHR 0x05, CHR 0x00, CHR 0x00, CHR 0x00]"
    by (simp add: encode_def le_bytes_numeral char_of_eq_iff)
  have c1: "CopyArgs (replicate 16 (CHR 0x00)) 1 [A_string [CHR ''a'', CHR 0x00, CHR ''b''], A_int32 5] =
     Ok (CHR 0x00 # [CHR ''a'', CHR 0x00, CHR ''b'', CHR 0x00, CHR 0x05, CHR 0x00, CHR 0x00, CHR 0x00] @
         replicate 7 (CHR 0x00), 9)"
    by (subst CopyArgs_eq) (simp_all add: e1)
  have c2: "CopyArgs (replicate 16 (CHR 0x00)) 1 [A_string [CHR ''a''], A_int32 5] =
     Ok (CHR 0x00 # [CHR ''a'', CHR 0x00, CHR 0x05, CHR 0x00, CHR 0x00, CHR 0x00] @
         replicate 9 (CHR 0x00), 7)"
    by (subst CopyArgs_eq) (simp_all add: e2)
  have n: "show_nat 327778 = ''327778''"
    by (simp add: show_nat_step show_nat_digit digit_def char_of_eq_iff)
  have v1: "Evaluate \<lparr>show_float = \<lambda>_. [], show_double = \<lambda>_. []\<rparr>
     \<lparr>mFormatString = ''{} {}'', CArgs = [T_string, T_int32]\<rparr>
     (CHR 0x00 # [CHR ''a'', CHR 0x00, CHR ''b'', CHR 0x00, CHR 0x05, CHR 0x00, CHR 0x00, CHR 0x00] @
      replicate 7 (CHR 0x00)) 1 [] = Ok ''a 327778''"
    by (simp add: Evaluate_def PrintData_def c_str_def Let_def show_int_def n)
  have v2: "Evaluate \<lparr>show_float = \<lambda>_. [], show_double = \<lambda>_. []\<rparr>
     \<lparr>mFormatString = ''{} {}'', CArgs = [T_string, T_int32]\<rparr>
     (CHR 0x00 # [CHR ''a'', CHR 0x00, CHR 0x05, CHR 0x00, CHR 0x00, CHR 0x00] @
      replicate 9 (CHR 0x00)) 1 [] = Ok ''a 5''"
    by (simp add: Evaluate_def PrintData_def c_str_def Let_def show_int_def show_nat_digit
        digit_def char_of_eq_iff)
  from c1 c2 v1 v2 show ?thesis by blast
qed

section \<open>Claims about the producer side\<close>

text \<open>
  Claim C2 as stated, that every call at or above the threshold enqueues one message whose
  payload begins with the level byte and the encoded arguments, fails where the encoded
  arguments do not fit the payload: the call writes beyond the payload instead.
\<close>

theorem Log_every_call_counterexample:
  "mLogLevel (logger process_new) \<le> FATAL \<and>
   Log process_new 3 \<lparr>mFormatString = ''main:{} {}'', CArgs = [T_cstr, T_int64]\<rparr> FATAL
     [A_cstr (replicate 1020 (CHR ''c'')), A_int64 7] = Some (Undefined OutOfBoundsWrite)"
proof -
  have lvl: "mLogLevel (logger process_new) \<le> FATAL"
    by (simp add: process_new_def FastLogger_new_def INFO_def FATAL_def)
  have wf: "wf_MessageQueue q \<and> \<not> IsFull q" if "sThreadScopedQueue process_new 3 = Some q" for q
    using that by (simp add: process_new_def)
  have over: "PayloadSize < 1 + length (encode [A_cstr (replicate 1020 (CHR ''c'')), A_int64 7])"
    by (simp add: encode_def length_c_str_replicate PayloadSize_def)
  have "Log process_new 3 \<lparr>mFormatString = ''main:{} {}'', CArgs = [T_cstr, T_int64]\<rparr> FATAL
     [A_cstr (replicate 1020 (CHR ''c'')), A_int64 7] = Some (Undefined OutOfBoundsWrite)"
    using lvl wf over by (rule Log_overflow)
  with lvl show ?thesis by simp
qed

text \<open>
  Claim C2, as the code has it. A call \<open>Log(formatter, level, args)\<close> below the threshold
  returns and leaves the process, every queue included, as it was. A call at or above the
  threshold by a thread whose queue is full does not return while no consumer frees a slot,
  and so enqueues and overwrites nothing. A call at or above the threshold by a thread
  whose queue is not full (a thread without a queue gets a new one), the queue keeping
  the invariant of its class: if the level byte and the encoded arguments are at most
  1024 bytes, the call returns and the queue of the calling thread holds one more message,
  the last, which points to the formatter and whose payload begins with the level byte
  followed by the encoded arguments, while the queues of the other threads, the file and
  the threshold are what they were; if they are more than 1024 bytes, the copy of the
  arguments writes beyond the payload.
\<close>

theorem Log_level_filter:
  "(logLevel < mLogLevel (logger p) \<longrightarrow>
      Log p self formatter logLevel args = Some (Ok p)) \<and>
   (mLogLevel (logger p) \<le> logLevel \<and> queue_full p self \<longrightarrow>
      Log p self formatter logLevel args = None) \<and>
   (mLogLevel (logger p) \<le> logLevel \<and> \<not> queue_full p self \<and>
    (\<forall>q. sThreadScopedQueue p self = Some q \<longrightarrow> wf_MessageQueue q) \<longrightarrow>
      (1 + length (encode args) \<le> PayloadSize \<longrightarrow>
         (\<exists>p' m. Log p self formatter logLevel args = Some (Ok p') \<and>
            pending p' self = pending p self @ [m] \<and>
            carries m formatter logLevel args \<and>
            (\<forall>t. t \<noteq> self \<longrightarrow> sThreadScopedQueue p' t = sThreadScopedQueue p t) \<and>
            mFileStream (logger p') = mFileStream (logger p) \<and>
            mLogLevel (logger p') = mLogLevel (logger p))) \<and>
      (PayloadSize < 1 + length (encode args) \<longrightarrow>
         Log p self formatter logLevel args = Some (Undefined OutOfBoundsWrite)))"
proof (intro conjI impI)
  assume "logLevel < mLogLevel (logger p)"
  then show "Log p self formatter logLevel args = Some (Ok p)"
    by (rule Log_below)
next
  assume "mLogLevel (logger p) \<le> logLevel \<and> queue_full p self"
  then show "Log p self formatter logLevel args = None"
    by (simp add: Log_full)
next
  assume h: "mLogLevel (logger p) \<le> logLevel \<and> \<not> queue_full p self \<and>
    (\<forall>q. sThreadScopedQueue p self = Some q \<longrightarrow> wf_MessageQueue q)"
    and fits: "1 + length (encode args) \<le> PayloadSize"
  from h have lvl: "mLogLevel (logger p) \<le> logLevel"
    and wf: "\<And>q. sThreadScopedQueue p self = Some q \<Longrightarrow> wf_MessageQueue q \<and> \<not> IsFull q"
    by (auto dest: not_queue_full)
  from Log_enqueues [OF lvl wf fits, where formatter = formatter]
  obtain p' q' m where "Log p self formatter logLevel args = Some (Ok p')"
    "sThreadScopedQueue p' = (sThreadScopedQueue p)(self \<mapsto> q')"
    "ring q' = pending p self @ [m]" "carries m formatter logLevel args"
    "mFileStream (logger p') = mFileStream (logger p)"
    "mLogLevel (logger p') = mLogLevel (logger p)"
    by blast
  then show "\<exists>p' m. Log p self formatter logLevel args = Some (Ok p') \<and>
              pending p' self = pending p self @ [m] \<and>
              carries m formatter logLevel args \<and>
              (\<forall>t. t \<noteq> self \<longrightarrow> sThreadScopedQueue p' t = sThreadScopedQueue p t) \<and>
              mFileStream (logger p') = mFileStream (logger p) \<and>
              mLogLevel (logger p') = mLogLevel (logger p)"
    by (intro exI [of _ p'] exI [of _ m]) (simp add: pending_def)
next
  assume h: "mLogLevel (logger p) \<le> logLevel \<and> \<not> queue_full p self \<and>
    (\<forall>q. sThreadScopedQueue p self = Some q \<longrightarrow> wf_MessageQueue q)"
    and over: "PayloadSize < 1 + length (encode args)"
  from h have lvl: "mLogLevel (logger p) \<le> logLevel"
    and wf: "\<And>q. sThreadScopedQueue p self = Some q \<Longrightarrow> wf_MessageQueue q \<and> \<not> IsFull q"
    by (auto dest: not_queue_full)
  from lvl wf over show "Log p self formatter logLevel args = Some (Undefined OutOfBoundsWrite)"
    by (rule Log_overflow)
qed

theorem Log_level_filter_witness:
  "DEBUG < mLogLevel (logger process_new) \<and>
   Log process_new 0 \<lparr>mFormatString = ''main:x={}'', CArgs = [T_int32]\<rparr> DEBUG [A_int32 5] =
     Some (Ok process_new) \<and>
   mLogLevel (logger process_new) \<le> ERROR \<and>
   queue_full \<lparr>logger = FastLogger_new,
               sThreadScopedQueue = [0 \<mapsto> ThreadScopedQueue_new\<lparr>mHead := 1\<rparr>]\<rparr> 0 \<and>
   Log \<lparr>logger = FastLogger_new,
        sThreadScopedQueue = [0 \<mapsto> ThreadScopedQueue_new\<lparr>mHead := 1\<rparr>]\<rparr> 0
     \<lparr>mFormatString = ''main:x={}'', CArgs = [T_int32]\<rparr> ERROR [A_int32 5] = None \<and>
   \<not> queue_full process_new 0 \<and>
   sThreadScopedQueue process_new 0 = None \<and>
   1 + length (encode [A_int32 5]) \<le> PayloadSize \<and>
   (\<exists>p' m. Log process_new 0 \<lparr>mFormatString = ''main:x={}'', CArgs = [T_int32]\<rparr> ERROR
              [A_int32 5] = Some (Ok p') \<and>
           pending p' 0 = [m] \<and>
           carries m \<lparr>mFormatString = ''main:x={}'', CArgs = [T_int32]\<rparr> ERROR [A_int32 5]) \<and>
   PayloadSize < 1 + length (encode [A_string (replicate 1023 (CHR ''a''))]) \<and>
   Log process_new 0 \<lparr>mFormatString = ''main:x={}'', CArgs = [T_string]\<rparr> ERROR
     [A_string (replicate 1023 (CHR ''a''))] = Some (Undefined OutOfBoundsWrite)"
proof -
  let ?f = "\<lparr>mFormatString = ''main:x={}'', CArgs = [T_int32]\<rparr>"
  let ?pf = "\<lparr>logger = FastLogger_new,
               sThreadScopedQueue = [0 \<mapsto> ThreadScopedQueue_new\<lparr>mHead := 1\<rparr>]\<rparr>"
  have lo: "DEBUG < mLogLevel (logger process_new)"
    and hi: "mLogLevel (logger process_new) \<le> ERROR"
    and hi': "mLogLevel (logger ?pf) \<le> ERROR"
    by (simp_all add: process_new_def FastLogger_new_def INFO_def ERROR_def DEBUG_def)
  have full: "queue_full ?pf 0"
    by (simp add: queue_full_def IsFull_def ThreadScopedQueue_new_def SPSCQueue_new_def
        getNextIndex_def kIndexMask_def QueueSize_def)
  have nq: "sThreadScopedQueue process_new 0 = None" and nf: "\<not> queue_full process_new 0"
    by (simp_all add: process_new_def queue_full_def)
  have wf: "\<forall>q. sThreadScopedQueue process_new 0 = Some q \<longrightarrow> wf_MessageQueue q"
    by (simp add: nq)
  have fits: "1 + length (encode [A_int32 5]) \<le> PayloadSize"
    by (simp add: encode_def PayloadSize_def)
  have over: "PayloadSize < 1 + length (encode [A_string (replicate 1023 (CHR ''a''))])"
    by (simp add: length_encode_string PayloadSize_def)
  have p0: "pending process_new 0 = []"
    by (simp add: pending_def nq)
  from Log_level_filter [where p = process_new and self = 0 and formatter = ?f
      and logLevel = DEBUG and args = "[A_int32 5]"] lo
  have a: "Log process_new 0 ?f DEBUG [A_int32 5] = Some (Ok process_new)"
    by blast
  from Log_level_filter [where p = ?pf and self = 0 and formatter = ?f
      and logLevel = ERROR and args = "[A_int32 5]"] hi' full
  have b: "Log ?pf 0 ?f ERROR [A_int32 5] = None"
    by blast
  from Log_level_filter [where p = process_new and self = 0 and formatter = ?f
      and logLevel = ERROR and args = "[A_int32 5]"] hi nf wf fits p0
  have c: "\<exists>p' m. Log process_new 0 ?f ERROR [A_int32 5] = Some (Ok p') \<and>
           pending p' 0 = [m] \<and> carries m ?f ERROR [A_int32 5]"
    by auto
  from Log_level_filter [where p = process_new and self = 0
      and formatter = "\<lparr>mFormatString = ''main:x={}'', CArgs = [T_string]\<rparr>"
      and logLevel = ERROR and args = "[A_string (replicate 1023 (CHR ''a''))]"] hi nf wf over
  have d: "Log process_new 0 \<lparr>mFormatString = ''main:x={}'', CArgs = [T_string]\<rparr> ERROR
             [A_string (replicate 1023 (CHR ''a''))] =
            Some (Undefined OutOfBoundsWrite)"
    by blast
  from lo a hi full b nf nq fits c over d show ?thesis
    by blast
qed

text \<open>
  Claim C6 as stated, that a call whose encoded bytes exceed the payload is refused and
  writes no byte outside the payload, fails: for a \<open>std::string\<close> of 1024 characters
  the call does not return the process as it was, it writes beyond the payload.
\<close>

theorem Log_overflow_counterexample:
  "PayloadSize < 1 + length (encode [A_string (replicate 1024 (CHR ''a''))]) \<and>
   Log \<lparr>logger = FastLogger_new, sThreadScopedQueue = [0 \<mapsto> ThreadScopedQueue_new]\<rparr> 0
     \<lparr>mFormatString = ''main:{}'', CArgs = [T_string]\<rparr> ERROR
     [A_string (replicate 1024 (CHR ''a''))] = Some (Undefined OutOfBoundsWrite) \<and>
   Log \<lparr>logger = FastLogger_new, sThreadScopedQueue = [0 \<mapsto> ThreadScopedQueue_new]\<rparr> 0
     \<lparr>mFormatString = ''main:{}'', CArgs = [T_string]\<rparr> ERROR
     [A_string (replicate 1024 (CHR ''a''))] \<noteq>
     Some (Ok \<lparr>logger = FastLogger_new, sThreadScopedQueue = [0 \<mapsto> ThreadScopedQueue_new]\<rparr>)"
proof -
  let ?p = "\<lparr>logger = FastLogger_new, sThreadScopedQueue = [0 \<mapsto> ThreadScopedQueue_new]\<rparr>"
  have over: "PayloadSize < 1 + length (encode [A_string (replicate 1024 (CHR ''a''))])"
    by (simp add: length_encode_string PayloadSize_def)
  have wf: "wf_MessageQueue q \<and> \<not> IsFull q" if "sThreadScopedQueue ?p 0 = Some q" for q
    using that wf_ThreadScopedQueue_new ThreadScopedQueue_new_not_full by auto
  have lvl: "mLogLevel (logger ?p) \<le> ERROR"
    by (simp add: FastLogger_new_def INFO_def ERROR_def)
  have "Log ?p 0 \<lparr>mFormatString = ''main:{}'', CArgs = [T_string]\<rparr> ERROR
     [A_string (replicate 1024 (CHR ''a''))] = Some (Undefined OutOfBoundsWrite)"
    using lvl wf over by (rule Log_overflow)
  with over show ?thesis by simp
qed

text \<open>
  Claim C6, as the code has it. The producer checks nothing. For a call at or above the
  threshold by a thread whose queue, if it has one, is not full: when the level byte and the
  encoded arguments exceed the 1024 bytes of the payload, the copy of the arguments writes
  beyond the payload, which is undefined, and the call neither drops the message nor returns
  the process as it was; when they are at most 1024 bytes, every byte is written inside the
  payload, which keeps its 1024 bytes, and the message is enqueued.
\<close>

theorem Log_overflow_unchecked:
  assumes lvl: "mLogLevel (logger p) \<le> logLevel"
    and wf: "\<And>q. sThreadScopedQueue p self = Some q \<Longrightarrow> wf_MessageQueue q \<and> \<not> IsFull q"
  shows "(PayloadSize < 1 + length (encode args) \<longrightarrow>
            Log p self formatter logLevel args = Some (Undefined OutOfBoundsWrite)) \<and>
         (1 + length (encode args) \<le> PayloadSize \<longrightarrow>
            (\<exists>p' m. Log p self formatter logLevel args = Some (Ok p') \<and>
               pending p' self = pending p self @ [m] \<and>
               length (mPayload m) = PayloadSize \<and>
               carries m formatter logLevel args))"
proof (intro conjI impI)
  assume "PayloadSize < 1 + length (encode args)"
  with lvl wf show "Log p self formatter logLevel args = Some (Undefined OutOfBoundsWrite)"
    by (rule Log_overflow)
next
  assume fits: "1 + length (encode args) \<le> PayloadSize"
  from Log_enqueues [OF lvl wf fits, where formatter = formatter]
  obtain p' q' m where l: "Log p self formatter logLevel args = Some (Ok p')"
    and q': "sThreadScopedQueue p' = (sThreadScopedQueue p)(self \<mapsto> q')"
    "wf_MessageQueue q'" "ring q' = pending p self @ [m]" "carries m formatter logLevel args"
    by blast
  from q'(2) have wfq: "wf_queue q'"
    and slots: "\<forall>m\<in>set (mDataBuffer q'). length (mPayload m) = PayloadSize"
    by (simp_all add: wf_MessageQueue_def)
  have "set (ring q') \<subseteq> set (mDataBuffer q')"
    using wfq by (auto simp: ring_def wf_queue_def QueueSize_pos)
  with q'(3) slots have "length (mPayload m) = PayloadSize" by auto
  with l q' show "\<exists>p' m. Log p self formatter logLevel args = Some (Ok p') \<and>
               pending p' self = pending p self @ [m] \<and>
               length (mPayload m) = PayloadSize \<and>
               carries m formatter logLevel args"
    by (intro exI [of _ p'] exI [of _ m]) (simp add: pending_def)
qed

theorem Log_overflow_unchecked_witness:
  "mLogLevel (logger \<lparr>logger = FastLogger_new,
                       sThreadScopedQueue = [0 \<mapsto> ThreadScopedQueue_new]\<rparr>) \<le> ERROR \<and>
   sThreadScopedQueue \<lparr>logger = FastLogger_new,
        sThreadScopedQueue = [0 \<mapsto> ThreadScopedQueue_new]\<rparr> 0 = Some ThreadScopedQueue_new \<and>
   wf_MessageQueue ThreadScopedQueue_new \<and> \<not> IsFull ThreadScopedQueue_new \<and>
   PayloadSize < 1 + length (encode [A_string (replicate 1023 (CHR ''a''))]) \<and>
   Log \<lparr>logger = FastLogger_new, sThreadScopedQueue = [0 \<mapsto> ThreadScopedQueue_new]\<rparr> 0
     \<lparr>mFormatString = ''main:{}'', CArgs = [T_string]\<rparr> ERROR
     [A_string (replicate 1023 (CHR ''a''))] = Some (Undefined OutOfBoundsWrite) \<and>
   1 + length (encode [A_string (replicate 1022 (CHR ''a''))]) \<le> PayloadSize \<and>
   (\<exists>p' m. Log \<lparr>logger = FastLogger_new, sThreadScopedQueue = [0 \<mapsto> ThreadScopedQueue_new]\<rparr> 0
        \<lparr>mFormatString = ''main:{}'', CArgs = [T_string]\<rparr> ERROR
        [A_string (replicate 1022 (CHR ''a''))] = Some (Ok p') \<and>
      pending p' 0 = [m] \<and> length (mPayload m) = PayloadSize)"
proof -
  let ?p = "\<lparr>logger = FastLogger_new, sThreadScopedQueue = [0 \<mapsto> ThreadScopedQueue_new]\<rparr>"
  let ?f = "\<lparr>mFormatString = ''main:{}'', CArgs = [T_string]\<rparr>"
  have over: "PayloadSize < 1 + length (encode [A_string (replicate 1023 (CHR ''a''))])"
    by (simp add: length_encode_string PayloadSize_def)
  have fits: "1 + length (encode [A_string (replicate 1022 (CHR ''a''))]) \<le> PayloadSize"
    by (simp add: length_encode_string PayloadSize_def)
  have wf: "wf_MessageQueue q \<and> \<not> IsFull q" if "sThreadScopedQueue ?p 0 = Some q" for q
    using that wf_ThreadScopedQueue_new ThreadScopedQueue_new_not_full by auto
  have lvl: "mLogLevel (logger ?p) \<le> ERROR"
    by (simp add: FastLogger_new_def INFO_def ERROR_def)
  have p0: "pending ?p 0 = []"
    by (simp add: pending_def ring_ThreadScopedQueue_new)
  from Log_overflow_unchecked [where p = ?p and self = 0 and formatter = ?f and logLevel = ERROR
      and args = "[A_string (replicate 1023 (CHR ''a''))]", OF lvl wf] over
  have a: "Log ?p 0 ?f ERROR [A_string (replicate 1023 (CHR ''a''))] = Some (Undefined OutOfBoundsWrite)"
    by blast
  from Log_overflow_unchecked [where p = ?p and self = 0 and formatter = ?f and logLevel = ERROR
      and args = "[A_string (replicate 1022 (CHR ''a''))]", OF lvl wf] fits p0
  have b: "\<exists>p' m. Log ?p 0 ?f ERROR [A_string (replicate 1022 (CHR ''a''))] = Some (Ok p') \<and>
      pending p' 0 = [m] \<and> length (mPayload m) = PayloadSize"
    by auto
  from lvl wf_ThreadScopedQueue_new ThreadScopedQueue_new_not_full over a fits b show ?thesis
    by simp
qed

text \<open>
  Claim C8 where no drainer runs during the sleep. A thread logs one message into a new
  logger and its queue is unregistered: \<open>UnRegisterThreadScopedQueue\<close> finds the queue
  non-empty, sleeps, does not look again and erases the queue from the set of the manager
  while the message is still in it.
\<close>

theorem unregister_removes_nonempty_queue:
  "\<exists>p1 p2 q.
     Log \<lparr>logger = FastLogger_new, sThreadScopedQueue = Map.empty\<rparr> 0
       \<lparr>mFormatString = ''main:bye'', CArgs = []\<rparr> ERROR [] = Some (Ok p1) \<and>
     mThreadScopedQueues (mThreadScopedQueueManager (logger p1)) = [0] \<and>
     UnRegisterThreadScopedQueue id p1 0 = Ok p2 \<and>
     mThreadScopedQueues (mThreadScopedQueueManager (logger p2)) = [] \<and>
     sThreadScopedQueue p2 0 = Some q \<and> \<not> IsEmpty q \<and> length (ring q) = 1"
proof -
  let ?p0 = "\<lparr>logger = FastLogger_new, sThreadScopedQueue = Map.empty\<rparr>"
  let ?f = "\<lparr>mFormatString = ''main:bye'', CArgs = []\<rparr>"
  have lvl: "mLogLevel (logger ?p0) \<le> ERROR"
    by (simp add: FastLogger_new_def INFO_def ERROR_def)
  have wf: "wf_MessageQueue q \<and> \<not> IsFull q" if "sThreadScopedQueue ?p0 0 = Some q" for q
    using that by simp
  have fits: "1 + length (encode []) \<le> PayloadSize"
    by (simp add: encode_Nil PayloadSize_def)
  have "\<exists>p1 q m. Log ?p0 0 ?f ERROR [] = Some (Ok p1) \<and>
      sThreadScopedQueue p1 = [0 \<mapsto> q] \<and> wf_MessageQueue q \<and>
      ring q = pending ?p0 0 @ [m] \<and>
      mThreadScopedQueues (mThreadScopedQueueManager (logger p1)) = [0]"
    using Log_enqueues [where p = ?p0 and self = 0 and formatter = ?f and logLevel = ERROR
        and args = "[]", OF lvl wf fits]
    by (auto simp: FastLogger_new_def)
  then obtain p1 q m where l: "Log ?p0 0 ?f ERROR [] = Some (Ok p1)"
    and s: "sThreadScopedQueue p1 = [0 \<mapsto> q]"
    and q: "wf_MessageQueue q" "ring q = pending ?p0 0 @ [m]"
    and r: "mThreadScopedQueues (mThreadScopedQueueManager (logger p1)) = [0]"
    by blast
  from q(2) have one: "length (ring q) = 1" by (simp add: pending_def)
  from q(1) have "wf_queue q" by (simp add: wf_MessageQueue_def)
  with one have ne: "\<not> IsEmpty q"
    by (simp add: IsEmpty_count length_ring)
  let ?p2 = "p1\<lparr>logger := (logger p1)\<lparr>mThreadScopedQueueManager :=
       (mThreadScopedQueueManager (logger p1))\<lparr>mThreadScopedQueues := []\<rparr>\<rparr>\<rparr>"
  have u: "UnRegisterThreadScopedQueue id p1 0 = Ok ?p2"
    using s r ne by (simp add: UnRegisterThreadScopedQueue_def Let_def)
  from l r u s ne one show ?thesis
    by (intro exI [of _ p1] exI [of _ ?p2] exI [of _ q]) simp
qed
section \<open>Claims about the drain pass\<close>

text \<open>
  Claim C5, as stated: every line of a drain pass has the form
  \<open>[YYYY-MM-DD HH:MM:SS] [LEVEL] <call-site>:<rendered-template>\<close>. This does not hold of the
  code. The formatter of a \<open>FAST_LOG\<close> call holds one template, the call-site identifier, a
  colon and the format string, and \<open>Format\<close> replaces the first placeholder it finds in it.
  For the call-site identifier \<open>void f(Ts ...) [with Ts = {}]\<close>, which is what
  \<open>__PRETTY_FUNCTION__\<close> is in a function template instantiated with an empty pack, the
  format string \<open>x={}\<close> and the argument 1, the message built by the call is written as
  \<open>void f(Ts ...) [with Ts = 1]:x={}\<close>: the argument goes into the call-site identifier
  and the placeholder of the format string stays, so the body is not the identifier, a
  colon and the rendered format string.
\<close>

theorem call_site_placeholder_counterexample:
  "LogMessage_new
     (LogFormatter_instance
        (makeStringLiteral [''void f(Ts ...) [with Ts = {}]'', '':'', ''x={}'']) [T_int32])
     INFO [A_int32 1] zero_LogMessage =
     Ok \<lparr>mFormatter = Some \<lparr>mFormatString = ''void f(Ts ...) [with Ts = {}]:x={}'',
                              CArgs = [T_int32]\<rparr>,
          mPayload = CHR 0x01 # [CHR 0x01, CHR 0x00, CHR 0x00, CHR 0x00] @
                     replicate 1019 (CHR 0x00)\<rparr> \<and>
   write_message \<lparr>show_float = \<lambda>_. [], show_double = \<lambda>_. []\<rparr>
     \<lparr>tm_sec = 5, tm_min = 24, tm_hour = 10, tm_mday = 3, tm_mon = 10, tm_year = 126\<rparr>
     \<lparr>mFormatter = Some \<lparr>mFormatString = ''void f(Ts ...) [with Ts = {}]:x={}'',
                           CArgs = [T_int32]\<rparr>,
       mPayload = CHR 0x01 # [CHR 0x01, CHR 0x00, CHR 0x00, CHR 0x00] @
                  replicate 1019 (CHR 0x00)\<rparr> =
     Ok [Write ''[2026-11-03 10:24:05] [INFO] void f(Ts ...) [with Ts = 1]:x={}'',
         Write [CHR 0x0A], Flush] \<and>
   ''void f(Ts ...) [with Ts = 1]:x={}'' \<noteq>
     ''void f(Ts ...) [with Ts = {}]'' @ '':'' @ render_template ''x={}'' [''1'']"
proof -
  let ?f = "\<lparr>mFormatString = ''void f(Ts ...) [with Ts = {}]:x={}'', CArgs = [T_int32]\<rparr>"
  let ?m = "\<lparr>mFormatter = Some ?f,
             mPayload = CHR 0x01 # [CHR 0x01, CHR 0x00, CHR 0x00, CHR 0x00] @
                        replicate 1019 (CHR 0x00)\<rparr>"
  let ?os = "\<lparr>show_float = \<lambda>_. [], show_double = \<lambda>_. []\<rparr>"
  let ?tm = "\<lparr>tm_sec = 5, tm_min = 24, tm_hour = 10, tm_mday = 3, tm_mon = 10, tm_year = 126\<rparr>"
  have f: "LogFormatter_instance
        (makeStringLiteral [''void f(Ts ...) [with Ts = {}]'', '':'', ''x={}'']) [T_int32] = ?f"
    by (simp add: LogFormatter_instance_def makeStringLiteral_def c_str_def)
  have enc: "encode [A_int32 1] = [CHR 0x01, CHR 0x00, CHR 0x00, CHR 0x00]"
    by (simp add: encode_def le_bytes_numeral char_of_eq_iff)
  have lv: "char_of_level INFO = CHR 0x01"
    by (simp add: char_of_level_def INFO_def char_of_eq_iff)
  have len: "length (mPayload zero_LogMessage) = PayloadSize"
    by (simp add: zero_LogMessage_def)
  have new: "LogMessage_new ?f INFO [A_int32 1] zero_LogMessage = Ok ?m"
    by (simp add: LogMessage_new_eq [OF len] enc lv)
       (simp add: zero_LogMessage_def PayloadSize_def)
  have held: "holds_call ?m (?f, INFO, [A_int32 1])"
    by (simp add: carries_def enc lv)
  have n2026: "show_nat 2026 = ''2026''" and n24: "show_nat 24 = ''24''"
    and n10: "show_nat 10 = ''10''" and n11: "show_nat 11 = ''11''"
    by (simp_all add: show_nat_step show_nat_digit digit_def char_of_eq_iff)
  have pt: "put_time ?tm = ''2026-11-03 10:24:05''"
    by (simp add: put_time_def pad2_def show_int_def n2026 n24 n10 n11 show_nat_digit digit_def
        char_of_eq_iff)
  have line: "line_of ?os ?tm (?f, INFO, [A_int32 1]) =
      ''[2026-11-03 10:24:05] [INFO] void f(Ts ...) [with Ts = 1]:x={}''"
    by (simp add: pt LogLevelToString_def INFO_def DEBUG_def show_int_def show_nat_digit
        digit_def char_of_eq_iff)
  from write_message_holds [OF held, of ?os ?tm] have w: "write_message ?os ?tm ?m =
     Ok [Write ''[2026-11-03 10:24:05] [INFO] void f(Ts ...) [with Ts = 1]:x={}'',
         Write [CHR 0x0A], Flush]"
    by (simp only: line)
  have ne: "''void f(Ts ...) [with Ts = 1]:x={}'' \<noteq>
     ''void f(Ts ...) [with Ts = {}]'' @ '':'' @ render_template ''x={}'' [''1'']"
    by simp
  from new w ne show ?thesis
    by (simp only: f simp_thms)
qed

text \<open>
  Claim C5, as the code has it. The invariant \<open>logs p calls\<close> says that the registered
  queues are distinct, exist and keep the invariant of their class, and that the
  outstanding messages of each thread hold the calls \<open>calls\<close> gives it, in order. It holds of
  a new process with no call, and a \<open>FAST_LOG\<close> call that returns, its \<open>std::string\<close>
  arguments free of null characters, keeps it, adding the call to those of the calling
  thread when the level is at or above the threshold; the formatter of that call has as
  template the call-site identifier, a colon and the format string, up to the first null
  character. Under the invariant, the clock giving valid times of a four-digit year, a
  drain pass returns and appends to the file, for each outstanding message in the order of
  the registered queues and of each queue, the line of its call, then a newline, then a
  flush, so that a line is flushed before the next is written; the line is the time in the
  form \<open>[YYYY-MM-DD HH:MM:SS]\<close>, a space, the name of the level in brackets, a space, and
  the template of the formatter with its placeholders replaced from the left, one for each
  argument, by the default text of the decoded arguments; the registered queues are left
  empty and the invariant holds again. When the call-site identifier holds no placeholder
  and no null character, the rendered template is the identifier, a colon and the rendered
  format string.
\<close>

theorem ConsumeAndWriteLogs_lines:
  assumes inv: "logs p calls"
    and clock: "\<forall>k. valid_tm (now k)"
  shows "(\<exists>p'. ConsumeAndWriteLogs os now message p = Some (Ok p') \<and>
            mFileStream (logger p') =
              mFileStream (logger p) @
              lines_from os now 0
                (concat (map calls (mThreadScopedQueues (mThreadScopedQueueManager (logger p))))) \<and>
            logs p' (\<lambda>t. if t \<in> set (mThreadScopedQueues (mThreadScopedQueueManager (logger p)))
                          then [] else calls t)) \<and>
         (\<forall>k. timestamp_form (put_time (now k))) \<and>
         (\<forall>pretty_function self logLevel formatString args p1.
            FAST_LOG pretty_function p self logLevel formatString args = Some (Ok p1) \<and>
            list_all null_terminated args \<longrightarrow>
            logs p1 (if mLogLevel (logger p) \<le> logLevel
                     then calls(self := calls self @
                            [(LogFormatter_instance (pretty_function @ '':'' @ formatString)
                                (map ctype_of args), logLevel, args)])
                     else calls)) \<and>
         logs process_new (\<lambda>_. []) \<and>
         (\<forall>FormatString Args. mFormatString (LogFormatter_instance FormatString Args) =
            c_str FormatString) \<and>
         (\<forall>pretty_function formatString texts.
            strstr pretty_function ''{}'' = None \<and> CHR 0x00 \<notin> set pretty_function \<longrightarrow>
            render_template (c_str (pretty_function @ '':'' @ formatString)) texts =
              pretty_function @ '':'' @ render_template (c_str formatString) texts)"
proof (intro conjI allI impI)
  show "\<exists>p'. ConsumeAndWriteLogs os now message p = Some (Ok p') \<and>
            mFileStream (logger p') =
              mFileStream (logger p) @
              lines_from os now 0
                (concat (map calls (mThreadScopedQueues (mThreadScopedQueueManager (logger p))))) \<and>
            logs p' (\<lambda>t. if t \<in> set (mThreadScopedQueues (mThreadScopedQueueManager (logger p)))
                          then [] else calls t)"
    using inv by (rule drain_preserves_logs)
next
  fix k
  from clock have "valid_tm (now k)" by simp
  then show "timestamp_form (put_time (now k))"
    by (rule put_time_form)
next
  fix pretty_function self logLevel formatString args p1
  let ?f = "LogFormatter_instance (pretty_function @ '':'' @ formatString) (map ctype_of args)"
  assume h: "FAST_LOG pretty_function p self logLevel formatString args = Some (Ok p1) \<and>
            list_all null_terminated args"
  then have ok: "Log p self ?f logLevel args = Some (Ok p1)"
    and nt: "list_all null_terminated args"
    by (simp_all add: FAST_LOG_formatter)
  have ty: "CArgs ?f = map ctype_of args"
    by (simp add: LogFormatter_instance_def)
  from inv ok ty nt
  show "logs p1 (if mLogLevel (logger p) \<le> logLevel
                     then calls(self := calls self @ [(?f, logLevel, args)])
                     else calls)"
    by (rule Log_preserves_logs)
next
  show "logs process_new (\<lambda>_. [])"
    by (rule logs_new)
next
  fix FormatString Args
  show "mFormatString (LogFormatter_instance FormatString Args) = c_str FormatString"
    by (simp add: LogFormatter_instance_def)
next
  fix pretty_function formatString texts
  assume h: "strstr pretty_function ''{}'' = None \<and> CHR 0x00 \<notin> set pretty_function"
  then have "c_str (pretty_function @ '':'' @ formatString) =
             pretty_function @ '':'' @ c_str formatString"
    by (intro c_str_call_site) simp
  moreover from h have "render_template (pretty_function @ '':'' @ c_str formatString) texts =
             pretty_function @ '':'' @ render_template (c_str formatString) texts"
    by (intro render_template_call_site) simp
  ultimately show "render_template (c_str (pretty_function @ '':'' @ formatString)) texts =
              pretty_function @ '':'' @ render_template (c_str formatString) texts"
    by (simp only:)
qed

theorem ConsumeAndWriteLogs_lines_witness:
  "\<exists>p1 p2 p4.
     FAST_LOG ''int main()'' process_new 0 INFO ''x={} y={}'' [A_int32 1, A_int32 2] =
       Some (Ok p1) \<and>
     FAST_LOG ''int main()'' p1 0 ERROR ''bye'' [] = Some (Ok p2) \<and>
     FAST_LOG ''int main()'' p2 0 DEBUG ''skip'' [] = Some (Ok p2) \<and>
     ConsumeAndWriteLogs \<lparr>show_float = \<lambda>_. [], show_double = \<lambda>_. []\<rparr>
       (\<lambda>_. \<lparr>tm_sec = 5, tm_min = 24, tm_hour = 10, tm_mday = 3, tm_mon = 10, tm_year = 126\<rparr>)
       zero_LogMessage p2 = Some (Ok p4) \<and>
     mFileStream (logger p4) =
       [Write ''[2026-11-03 10:24:05] [INFO] int main():x=1 y=2'', Write [CHR 0x0A], Flush,
        Write ''[2026-11-03 10:24:05] [ERROR] int main():bye'', Write [CHR 0x0A], Flush] \<and>
     pending p4 0 = []"
proof -
  let ?os = "\<lparr>show_float = \<lambda>_. [], show_double = \<lambda>_. []\<rparr>"
  let ?now = "\<lambda>_::nat. \<lparr>tm_sec = 5, tm_min = 24, tm_hour = 10, tm_mday = 3, tm_mon = 10, tm_year = 126\<rparr>"
  let ?f1 = "LogFormatter_instance (''int main()'' @ '':'' @ ''x={} y={}'')
               (map ctype_of [A_int32 1, A_int32 2])"
  let ?f2 = "LogFormatter_instance (''int main()'' @ '':'' @ ''bye'') (map ctype_of [])"
  let ?f3 = "LogFormatter_instance (''int main()'' @ '':'' @ ''skip'') (map ctype_of [])"
  let ?a1 = "[A_int32 1, A_int32 2]"
  let ?c1 = "(\<lambda>_. [])(0 := [(?f1, INFO, ?a1)]) :: thread_id \<Rightarrow> log_call list"
  let ?c2 = "?c1(0 := [(?f1, INFO, ?a1), (?f2, ERROR, [])])"
  have t0: "mLogLevel (logger process_new) = INFO"
    and r0: "mThreadScopedQueues (mThreadScopedQueueManager (logger process_new)) = []"
    and s0: "sThreadScopedQueue process_new 0 = None"
    by (simp_all add: process_new_def FastLogger_new_def)
  have wf0: "wf_MessageQueue q \<and> \<not> IsFull q" if "sThreadScopedQueue process_new 0 = Some q" for q
    using that by (simp add: s0)
  have clock: "\<forall>k. valid_tm (?now k)"
    by (simp add: valid_tm_def)
  have fits1: "1 + length (encode ?a1) \<le> PayloadSize"
    by (simp add: encode_def PayloadSize_def)
  have fits2: "1 + length (encode []) \<le> PayloadSize"
    by (simp add: encode_def PayloadSize_def)
  have lvl1: "mLogLevel (logger process_new) \<le> INFO"
    by (simp add: t0)
  from Log_enqueues [where p = process_new and self = 0 and formatter = ?f1 and logLevel = INFO
      and args = ?a1, OF lvl1 wf0 fits1]
  obtain p1 where l1: "Log process_new 0 ?f1 INFO ?a1 = Some (Ok p1)"
    and t1: "mLogLevel (logger p1) = INFO"
    and r1: "mThreadScopedQueues (mThreadScopedQueueManager (logger p1)) = [0]"
    and f1: "mFileStream (logger p1) = []"
    by (auto simp: t0 r0 s0 process_new_def FastLogger_new_def)
  have fl1: "FAST_LOG ''int main()'' process_new 0 INFO ''x={} y={}'' ?a1 = Some (Ok p1)"
    using l1 by (simp only: FAST_LOG_formatter)
  from ConsumeAndWriteLogs_lines [where p = process_new and calls = "\<lambda>_. []" and now = ?now
      and os = ?os and message = zero_LogMessage, OF logs_new clock]
  have "FAST_LOG ''int main()'' process_new 0 INFO ''x={} y={}'' ?a1 = Some (Ok p1) \<and>
        list_all null_terminated ?a1 \<longrightarrow>
        logs p1 (if mLogLevel (logger process_new) \<le> INFO
                 then (\<lambda>_. [])(0 := [] @ [(?f1, INFO, ?a1)]) else (\<lambda>_. []))"
    by blast
  with fl1 have i1: "logs p1 ?c1"
    by (simp add: t0)
  then have wfs1: "\<And>q. sThreadScopedQueue p1 0 = Some q \<Longrightarrow> wf_MessageQueue q"
    by (simp add: logs_def)
  from i1 have "\<forall>t. list_all2 holds_call (pending p1 t) (?c1 t)"
    unfolding logs_def by blast
  then have h1: "list_all2 holds_call (pending p1 0) (?c1 0)" ..
  from i1 r1 obtain q1 where q1: "sThreadScopedQueue p1 0 = Some q1"
    by (auto simp: logs_def)
  from h1 q1 have "length (ring q1) = 1"
    by (auto simp: pending_def dest: list_all2_lengthD)
  moreover from wfs1 [OF q1] have wq1: "wf_queue q1"
    by (simp add: wf_MessageQueue_def)
  ultimately have nf1: "\<not> IsFull q1"
    by (simp add: IsFull_count length_ring QueueSize_def)
  have wf1: "wf_MessageQueue q \<and> \<not> IsFull q" if "sThreadScopedQueue p1 0 = Some q" for q
    using that q1 wfs1 nf1 by simp
  have lvl2: "mLogLevel (logger p1) \<le> ERROR"
    by (simp add: t1 INFO_def ERROR_def)
  from Log_enqueues [where p = p1 and self = 0 and formatter = ?f2 and logLevel = ERROR
      and args = "[]", OF lvl2 wf1 fits2]
  obtain p2 where l2: "Log p1 0 ?f2 ERROR [] = Some (Ok p2)"
    and t2: "mLogLevel (logger p2) = INFO"
    and r2: "mThreadScopedQueues (mThreadScopedQueueManager (logger p2)) = [0]"
    and f2: "mFileStream (logger p2) = []"
    by (auto simp: t1 r1 q1 f1)
  have fl2: "FAST_LOG ''int main()'' p1 0 ERROR ''bye'' [] = Some (Ok p2)"
    using l2 by (simp only: FAST_LOG_formatter)
  from ConsumeAndWriteLogs_lines [where p = p1 and calls = ?c1 and now = ?now
      and os = ?os and message = zero_LogMessage, OF i1 clock]
  have "FAST_LOG ''int main()'' p1 0 ERROR ''bye'' [] = Some (Ok p2) \<and>
        list_all null_terminated [] \<longrightarrow>
        logs p2 (if mLogLevel (logger p1) \<le> ERROR
                 then ?c1(0 := ?c1 0 @ [(?f2, ERROR, [])]) else ?c1)"
    by blast
  with fl2 lvl2 have i2: "logs p2 ?c2"
    by simp
  have l3: "Log p2 0 ?f3 DEBUG [] = Some (Ok p2)"
    by (rule Log_below) (simp add: t2 INFO_def DEBUG_def)
  have n2026: "show_nat 2026 = ''2026''" and n24: "show_nat 24 = ''24''"
    and n10: "show_nat 10 = ''10''" and n11: "show_nat 11 = ''11''"
    by (simp_all add: show_nat_step show_nat_digit digit_def char_of_eq_iff)
  have pt: "put_time (?now k) = ''2026-11-03 10:24:05''" for k
    by (simp add: put_time_def pad2_def show_int_def n2026 n24 n10 n11 show_nat_digit digit_def
        char_of_eq_iff)
  have lines: "lines_from ?os ?now 0 (concat (map ?c2 [0])) =
       [Write ''[2026-11-03 10:24:05] [INFO] int main():x=1 y=2'', Write [CHR 0x0A], Flush,
        Write ''[2026-11-03 10:24:05] [ERROR] int main():bye'', Write [CHR 0x0A], Flush]"
    by (simp add: pt LogLevelToString_def INFO_def ERROR_def DEBUG_def FATAL_def show_int_def
        show_nat_digit digit_def char_of_eq_iff LogFormatter_instance_def c_str_def)
  from ConsumeAndWriteLogs_lines [where p = p2 and calls = ?c2 and now = ?now and os = ?os
      and message = zero_LogMessage, OF i2 clock]
  obtain p4 where d: "ConsumeAndWriteLogs ?os ?now zero_LogMessage p2 = Some (Ok p4)"
    and fl: "mFileStream (logger p4) = mFileStream (logger p2) @
         lines_from ?os ?now 0 (concat (map ?c2 (mThreadScopedQueues (mThreadScopedQueueManager (logger p2)))))"
    and i4: "logs p4 (\<lambda>t. if t \<in> set (mThreadScopedQueues (mThreadScopedQueueManager (logger p2)))
                          then [] else ?c2 t)"
    by blast
  from fl have fl': "mFileStream (logger p4) =
       [Write ''[2026-11-03 10:24:05] [INFO] int main():x=1 y=2'', Write [CHR 0x0A], Flush,
        Write ''[2026-11-03 10:24:05] [ERROR] int main():bye'', Write [CHR 0x0A], Flush]"
    by (simp only: r2 f2 lines append_Nil)
  from i4 have "\<forall>t. list_all2 holds_call (pending p4 t)
      ((\<lambda>t. if t \<in> set (mThreadScopedQueues (mThreadScopedQueueManager (logger p2)))
            then [] else ?c2 t) t)"
    unfolding logs_def by blast
  then have "list_all2 holds_call (pending p4 0)
      ((\<lambda>t. if t \<in> set (mThreadScopedQueues (mThreadScopedQueueManager (logger p2)))
            then [] else ?c2 t) 0)" ..
  then have "list_all2 holds_call (pending p4 0) []"
    by (simp add: r2)
  then have e': "pending p4 0 = []" by simp
  from l1 l2 l3 d fl' e' show ?thesis
    unfolding FAST_LOG_formatter by blast
qed

end
